theory Spec2Isabelle
  imports Complex_Main "HOL-Library.Word" "HOL-Library.Monad_Syntax"
begin

section \<open>The menu system: data and navigation\<close>

text \<open>
  This theory models the menu system of \<^verbatim>\<open>util_menu_system.c\<close> and the parts of the LCD
  menu driver \<^verbatim>\<open>util_menu_driver.c\<close> that decide what is shown, and proves properties of
  them.

  A C struct is a record with the names of its fields.  \<^verbatim>\<open>uint8\<close> and \<^verbatim>\<open>int8\<close> are both
  8-bit words: the signed reading of a word is \<open>sint\<close>, the unsigned one \<open>uint\<close> or
  \<open>unat\<close>, signed comparisons are \<open>\<le>s\<close> and \<open><s\<close>, and a conversion between the two
  types keeps the bits.  Where C promotes both operands to \<^verbatim>\<open>int\<close> the model compares or
  adds the integers that the operands denote.

  A pointer to a menu is an address and null is \<open>None\<close>; the menus live in a store
  (\<open>heap\<close>).  A function that only reads and writes the fields of the menu it is given
  takes that menu's record and returns the updated one.  Strings are values; the pointers to
  graphics, to the value and to the callback arguments are addresses.

  Reading an item outside the array \<open>pItems\<close>, dividing by zero items per screen and
  following a pointer to no menu are faults: the result is \<open>None\<close>.

  The header of the driver is not among the sources, so its constant
  \<^verbatim>\<open>MENU_ITEMS_PER_SCREEN\<close> is the parameter \<open>cap\<close> of every function that depends on it.
  An application callback is an address; what the callbacks do is the parameter \<open>app\<close>,
  which maps the callback, its argument and the store to the returned byte and the new
  store.  \<open>menuEnter\<close> also returns the list of the callbacks it ran.
\<close>

unbundle bit_operations_syntax

type_synonym uint8 = "8 word"

type_synonym int8 = "8 word"

type_synonym uint16 = "16 word"

type_synonym addr = nat

record menuItem =
  flags :: uint16
  pTextNumber :: "string option"
  pTextDescription :: "string option"
  pValue :: "addr option"
  pSubMenu :: "addr option"
  pItemGraphics :: "addr option"
  pApplication :: "addr option"
  pAppArgs :: "addr option"

record menu =
  pItems :: "menuItem list"
  pParentMenu :: "addr option"
  pMenuGraphics :: "addr option"
  pTextHeader :: "string option"
  pTextMenuItems :: "string option"
  nMenuItems :: uint8
  nCurrentItem :: uint8
  nSelectedItem :: int8
  nScreen :: uint8
  reservedAreas :: uint8

type_synonym heap = "addr \<Rightarrow> menu option"

type_synonym app_call = "addr \<times> addr option"

type_synonym apps = "addr \<Rightarrow> addr option \<Rightarrow> heap \<Rightarrow> uint8 \<times> heap"

definition M_DISABLED :: uint16 where
  "M_DISABLED = 0x8000"

text \<open>\<^verbatim>\<open>pMenu->pItems[i]\<close>, for an index given as an integer.\<close>

definition item_at :: "menuItem list \<Rightarrow> int \<Rightarrow> menuItem option" where
  "item_at items i = (if 0 \<le> i \<and> nat i < length items then Some (items ! nat i) else None)"

text \<open>
  Two functions of the driver that the navigation calls.  The loop of
  \<^verbatim>\<open>determineItemsPerScreen\<close> runs over the bits 1 to 7 of \<open>reservedAreas\<close>;
  \<^verbatim>\<open>menuGetScreen\<close> is \<^verbatim>\<open>nItem/determineItemsPerScreen(pMenu)\<close> on \<^verbatim>\<open>uint8\<close>.
\<close>

definition determineItemsPerScreen :: "uint8 \<Rightarrow> menu \<Rightarrow> uint8" where
  "determineItemsPerScreen cap pMenu =
     fold (\<lambda>bit' itemsPerScreen.
             if (uint (reservedAreas pMenu)) AND (push_bit bit' 1) \<noteq> 0
             then itemsPerScreen - 1 else itemsPerScreen)
          [1..<8] cap"

definition menuGetScreen :: "uint8 \<Rightarrow> menu \<Rightarrow> uint8 \<Rightarrow> uint8 option" where
  "menuGetScreen cap pMenu nItem =
     (let itemsPerScreen = determineItemsPerScreen cap pMenu
      in if itemsPerScreen = 0 then None else Some (nItem div itemsPerScreen))"

text \<open>Arithmetic of 8-bit words, needed for the termination of the loops.\<close>

lemma unat_lt_256: "unat (w::8 word) < 256"
  using unsigned_less [of w, where 'a=nat] by simp

lemma sint_int8:
  "sint (w::8 word) = (if unat w < 128 then int (unat w) else int (unat w) - 256)"
proof -
  have b: "uint w < 256" using uint_lt2p [of w] by simp
  have p: "0 \<le> uint w" by simp
  have u: "int (unat w) = uint w" by simp
  have "sint w = take_bit 8 (uint w + 128) - 128"
    by (simp add: sint_uint signed_take_bit_eq_take_bit_shift)
  also have "\<dots> = (uint w + 128) mod 256 - 128"
    by (simp add: take_bit_eq_mod)
  also have "\<dots> = (if uint w < 128 then uint w else uint w - 256)"
  proof (cases "uint w < 128")
    case True
    then show ?thesis using p by simp
  next
    case False
    have "(uint w + 128) mod 256 = (uint w + 128 - 256) mod 256"
      by (metis mod_diff_right_eq mod_self diff_zero)
    also have "\<dots> = uint w + 128 - 256"
      using False b by (intro mod_pos_pos_trivial) auto
    finally show ?thesis using False by simp
  qed
  finally have "sint w = (if uint w < 128 then uint w else uint w - 256)" .
  moreover have "(uint w < 128) = (unat w < 128)"
    unfolding u [symmetric] by linarith
  ultimately show ?thesis unfolding u by simp
qed

lemma sle_zero_int8: "0 \<le>s (w::8 word) \<longleftrightarrow> unat w < 128"
  using uint_lt2p [of w] by (simp add: word_sle_eq sint_int8)

lemma unat_m1: "unat (- 1 :: 8 word) = 255"
  by (simp add: unsigned_minus_1_eq_mask mask_eq_exp_minus_1)

lemma unat_dec_int8: "w \<noteq> 0 \<Longrightarrow> unat (w - 1 :: 8 word) = unat w - 1"
  by (rule unat_minus_one)

lemma unat_inc_int8: "unat w < 255 \<Longrightarrow> unat (w + 1 :: 8 word) = unat w + 1"
  by (simp add: unat_word_ariths)

text \<open>
  The search loops of \<^verbatim>\<open>menuUp\<close> and \<^verbatim>\<open>menuDown\<close>, as functions of the loop variables
  \<open>attemptedItem\<close> and \<open>itemFound\<close>.  In \<^verbatim>\<open>menuUp\<close> the index is an \<^verbatim>\<open>int8\<close>, in
  \<^verbatim>\<open>menuDown\<close> a \<^verbatim>\<open>uint8\<close> compared with \<open>nMenuItems\<close>.
\<close>

function menuUp_loop :: "menuItem list \<Rightarrow> int8 \<Rightarrow> uint8 \<Rightarrow> (int8 \<times> uint8) option" where
  "menuUp_loop items attemptedItem itemFound =
     (if 0 \<le>s attemptedItem \<and> itemFound = 0 then
        (case item_at items (sint attemptedItem) of
           None \<Rightarrow> None
         | Some item \<Rightarrow>
             if flags item AND M_DISABLED \<noteq> 0
             then menuUp_loop items (attemptedItem - 1) itemFound
             else menuUp_loop items attemptedItem 1)
      else Some (attemptedItem, itemFound))"
  by pat_completeness auto

termination
proof (relation "measure (\<lambda>(items, a, f). if 0 \<le>s a \<and> f = 0 then unat a + 1 else 0)")
  show "wf (measure (\<lambda>(items, a, f). if 0 \<le>s a \<and> f = 0 then unat a + 1 else 0))"
    by simp
next
  fix items :: "menuItem list" and attemptedItem itemFound :: "8 word" and x2 :: menuItem
  assume a: "0 \<le>s attemptedItem \<and> itemFound = 0"
  show "((items, attemptedItem - 1, itemFound), items, attemptedItem, itemFound)
       \<in> measure (\<lambda>(items, a, f). if 0 \<le>s a \<and> f = 0 then unat a + 1 else 0)"
  proof (cases "attemptedItem = 0")
    case True
    with a show ?thesis by (simp add: sle_zero_int8 unat_m1)
  next
    case False
    then have "unat attemptedItem \<noteq> 0" by (simp add: unat_eq_0)
    with False a show ?thesis by (simp add: sle_zero_int8 unat_dec_int8)
  qed
next
  fix items :: "menuItem list" and attemptedItem itemFound :: "8 word" and x2 :: menuItem
  assume a: "0 \<le>s attemptedItem \<and> itemFound = 0"
  then show "((items, attemptedItem, 1), items, attemptedItem, itemFound)
       \<in> measure (\<lambda>(items, a, f). if 0 \<le>s a \<and> f = 0 then unat a + 1 else 0)"
    by simp
qed

function menuDown_loop ::
  "menuItem list \<Rightarrow> uint8 \<Rightarrow> uint8 \<Rightarrow> uint8 \<Rightarrow> (uint8 \<times> uint8) option" where
  "menuDown_loop items n attemptedItem itemFound =
     (if attemptedItem < n \<and> itemFound = 0 then
        (case item_at items (uint attemptedItem) of
           None \<Rightarrow> None
         | Some item \<Rightarrow>
             if flags item AND M_DISABLED \<noteq> 0
             then menuDown_loop items n (attemptedItem + 1) itemFound
             else menuDown_loop items n attemptedItem 1)
      else Some (attemptedItem, itemFound))"
  by pat_completeness auto

termination
proof (relation "measure (\<lambda>(items, n, a, f). if a < n \<and> f = 0 then unat n - unat a + 1 else 0)")
  show "wf (measure (\<lambda>(items, n, a, f). if a < n \<and> f = 0 then unat n - unat a + 1 else 0))"
    by simp
next
  fix items :: "menuItem list" and n attemptedItem itemFound :: "8 word" and x2 :: menuItem
  assume a: "attemptedItem < n \<and> itemFound = 0"
  then have lt: "unat attemptedItem < unat n" by (simp add: word_less_nat_alt)
  then have "unat attemptedItem < 255" using unat_lt_256 [of n] by simp
  then have "unat (attemptedItem + 1) = unat attemptedItem + 1" by (rule unat_inc_int8)
  with a lt show "((items, n, attemptedItem + 1, itemFound), items, n, attemptedItem, itemFound)
       \<in> measure (\<lambda>(items, n, a, f). if a < n \<and> f = 0 then unat n - unat a + 1 else 0)"
    by (auto simp add: word_less_nat_alt)
next
  fix items :: "menuItem list" and n attemptedItem itemFound :: "8 word" and x2 :: menuItem
  assume a: "attemptedItem < n \<and> itemFound = 0"
  then show "((items, n, attemptedItem, 1), items, n, attemptedItem, itemFound)
       \<in> measure (\<lambda>(items, n, a, f). if a < n \<and> f = 0 then unat n - unat a + 1 else 0)"
    by simp
qed

text \<open>
  \<^verbatim>\<open>menuUp\<close> and \<^verbatim>\<open>menuDown\<close> return the result byte and the updated menu.  The three
  screens are \<^verbatim>\<open>int8\<close> in \<^verbatim>\<open>menuUp\<close> and \<^verbatim>\<open>uint8\<close> in \<^verbatim>\<open>menuDown\<close>; \<open>currentScreen-1\<close> and
  \<open>currentScreen+1\<close> are computed on \<^verbatim>\<open>int\<close>.
\<close>

definition menuUp :: "uint8 \<Rightarrow> menu \<Rightarrow> (uint8 \<times> menu) option" where
  "menuUp cap pMenu = do {
     (attemptedItem, itemFound) \<leftarrow> menuUp_loop (pItems pMenu) (nCurrentItem pMenu - 1) 0;
     attemptedItemScreen \<leftarrow> menuGetScreen cap pMenu attemptedItem;
     currentItemScreen \<leftarrow> menuGetScreen cap pMenu (nCurrentItem pMenu);
     let currentScreen = nScreen pMenu;
     if itemFound \<noteq> 0 \<and> attemptedItemScreen = currentScreen
          \<and> currentItemScreen = currentScreen
     then Some (1, pMenu\<lparr>nCurrentItem := attemptedItem\<rparr>)
     else if itemFound \<noteq> 0 \<and> sint attemptedItemScreen = sint currentScreen - 1
          \<and> currentScreen \<le>s currentItemScreen
     then Some (1, pMenu\<lparr>nCurrentItem := attemptedItem, nScreen := nScreen pMenu - 1\<rparr>)
     else if 0 < nScreen pMenu
     then Some (1, pMenu\<lparr>nScreen := nScreen pMenu - 1\<rparr>)
     else Some (0, pMenu)
   }"

definition menuDown :: "uint8 \<Rightarrow> menu \<Rightarrow> (uint8 \<times> menu) option" where
  "menuDown cap pMenu = do {
     (attemptedItem, itemFound) \<leftarrow>
        menuDown_loop (pItems pMenu) (nMenuItems pMenu) (nCurrentItem pMenu + 1) 0;
     attemptedItemScreen \<leftarrow> menuGetScreen cap pMenu attemptedItem;
     currentItemScreen \<leftarrow> menuGetScreen cap pMenu (nCurrentItem pMenu);
     let currentScreen = nScreen pMenu;
     lastScreen \<leftarrow> (if 0 < nMenuItems pMenu
                    then menuGetScreen cap pMenu (nMenuItems pMenu - 1) else Some 0);
     if itemFound \<noteq> 0 \<and> attemptedItemScreen = currentScreen
          \<and> currentItemScreen = currentScreen
     then Some (1, pMenu\<lparr>nCurrentItem := attemptedItem\<rparr>)
     else if itemFound \<noteq> 0 \<and> uint attemptedItemScreen = uint currentScreen + 1
          \<and> currentItemScreen \<le> currentScreen
     then Some (1, pMenu\<lparr>nCurrentItem := attemptedItem, nScreen := nScreen pMenu + 1\<rparr>)
     else if nScreen pMenu < lastScreen
     then Some (1, pMenu\<lparr>nScreen := nScreen pMenu + 1\<rparr>)
     else Some (0, pMenu)
   }"

declare menuUp_loop.simps [simp del] menuDown_loop.simps [simp del]

text \<open>
  The two loops find the nearest enabled item before and after an index.  These
  facts give the measure that decreases in the loop of \<^verbatim>\<open>menuPositionTop\<close>.
\<close>

definition item_disabled :: "menuItem \<Rightarrow> bool" where
  "item_disabled item \<longleftrightarrow> flags item AND M_DISABLED \<noteq> 0"

primrec prev_enabled :: "menuItem list \<Rightarrow> nat \<Rightarrow> nat option" where
  "prev_enabled items 0 = None"
| "prev_enabled items (Suc k) =
     (if item_disabled (items ! k) then prev_enabled items k else Some k)"

lemma menuUp_loop_found: "menuUp_loop items a 1 = Some (a, 1)"
  by (subst menuUp_loop.simps) simp

lemma menuUp_loop_neg: "\<not> unat a < 128 \<Longrightarrow> menuUp_loop items a f = Some (a, f)"
  by (subst menuUp_loop.simps) (simp add: sle_zero_int8)

lemma item_at_sint: "unat a < 128 \<Longrightarrow> unat a < length items \<Longrightarrow>
  item_at items (sint (a::8 word)) = Some (items ! unat a)"
  by (simp add: item_at_def sint_int8)

lemma menuUp_loop_prev:
  "k \<le> 128 \<Longrightarrow> k \<le> length items \<Longrightarrow>
   menuUp_loop items (of_nat k - 1) 0 =
     Some (case prev_enabled items k of None \<Rightarrow> (- 1, 0) | Some i \<Rightarrow> (of_nat i, 1))"
proof (induction k)
  case 0
  show ?case by (simp add: menuUp_loop_neg unat_m1)
next
  case (Suc k)
  have k: "k < 128" "k < length items" using Suc.prems by simp_all
  have un: "unat (of_nat k :: 8 word) = k"
    using k by (simp add: unat_of_nat)
  have a: "(of_nat (Suc k) - 1 :: 8 word) = of_nat k" by simp
  show ?case
  proof (cases "item_disabled (items ! k)")
    case True
    have "menuUp_loop items (of_nat k) 0 = menuUp_loop items (of_nat k - 1) 0"
      using True k un
      by (subst menuUp_loop.simps) (simp add: sle_zero_int8 item_at_sint item_disabled_def)
    with Suc.IH k True show ?thesis unfolding a by simp
  next
    case False
    have "menuUp_loop items (of_nat k) 0 = menuUp_loop items (of_nat k) 1"
      using False k un
      by (subst menuUp_loop.simps) (simp add: sle_zero_int8 item_at_sint item_disabled_def)
    with False show ?thesis unfolding a by (simp add: menuUp_loop_found)
  qed
qed

lemma prev_enabled_Some:
  "prev_enabled items k = Some i \<Longrightarrow>
   i < k \<and> \<not> item_disabled (items ! i) \<and> (\<forall>j. i < j \<and> j < k \<longrightarrow> item_disabled (items ! j))"
proof (induction k)
  case 0
  then show ?case by simp
next
  case (Suc k)
  show ?case
  proof (cases "item_disabled (items ! k)")
    case True
    with Suc have ih: "i < k \<and> \<not> item_disabled (items ! i) \<and> (\<forall>j. i < j \<and> j < k \<longrightarrow> item_disabled (items ! j))"
      by simp
    have "\<And>j. i < j \<Longrightarrow> j < Suc k \<Longrightarrow> item_disabled (items ! j)"
      using ih True less_Suc_eq by auto
    with ih show ?thesis by auto
  next
    case False
    with Suc.prems show ?thesis by auto
  qed
qed

lemma prev_enabled_None:
  "prev_enabled items k = None \<longleftrightarrow> (\<forall>j<k. item_disabled (items ! j))"
  by (induction k) (auto simp add: less_Suc_eq)

lemma prev_enabled_unique:
  "i < k \<Longrightarrow> \<not> item_disabled (items ! i) \<Longrightarrow> (\<forall>j. i < j \<and> j < k \<longrightarrow> item_disabled (items ! j))
   \<Longrightarrow> prev_enabled items k = Some i"
proof -
  assume a: "i < k" "\<not> item_disabled (items ! i)" "\<forall>j. i < j \<and> j < k \<longrightarrow> item_disabled (items ! j)"
  from a(1,2) have "prev_enabled items k \<noteq> None" by (auto simp add: prev_enabled_None)
  then obtain i' where i': "prev_enabled items k = Some i'" by auto
  from prev_enabled_Some [OF i'] a have "i' = i"
    by (metis linorder_neqE_nat)
  with i' show ?thesis by simp
qed

definition next_enabled :: "menuItem list \<Rightarrow> nat \<Rightarrow> nat \<Rightarrow> nat option" where
  "next_enabled items n k = find (\<lambda>i. \<not> item_disabled (items ! i)) [k..<n]"

lemma menuDown_loop_found: "menuDown_loop items n a 1 = Some (a, 1)"
  by (subst menuDown_loop.simps) simp

lemma item_at_uint: "unat a < length items \<Longrightarrow>
  item_at items (uint (a::8 word)) = Some (items ! unat a)"
  by (simp add: item_at_def)

lemma menuDown_loop_next:
  "unat n \<le> length items \<Longrightarrow>
   menuDown_loop items n a 0 =
     Some (case next_enabled items (unat n) (unat a) of
             None \<Rightarrow> (if a < n then n else a, 0)
           | Some i \<Rightarrow> (of_nat i, 1))"
proof (induction "unat n - unat a" arbitrary: a)
  case 0
  then have le: "unat n \<le> unat a" by simp
  then have "\<not> a < n" by (simp add: word_less_nat_alt)
  then show ?case using le
    by (subst menuDown_loop.simps) (simp add: next_enabled_def)
next
  case (Suc d)
  then have lt: "unat a < unat n" by simp
  then have an: "a < n" by (simp add: word_less_nat_alt)
  have len: "unat a < length items" using lt Suc.prems by simp
  have inc: "unat (a + 1) = unat a + 1"
    using lt unat_lt_256 [of n] by (intro unat_inc_int8) simp
  have upt: "[unat a..<unat n] = unat a # [unat (a + 1)..<unat n]"
    using lt inc by (simp add: upt_rec)
  show ?case
  proof (cases "item_disabled (items ! unat a)")
    case True
    have step: "menuDown_loop items n a 0 = menuDown_loop items n (a + 1) 0"
      using True an len
      by (subst menuDown_loop.simps) (simp add: item_at_uint item_disabled_def)
    have "d = unat n - unat (a + 1)" using Suc.hyps(2) inc by simp
    from Suc.hyps(1) [OF this Suc.prems]
    have ih: "menuDown_loop items n (a + 1) 0 =
       Some (case next_enabled items (unat n) (unat (a + 1)) of
             None \<Rightarrow> (if a + 1 < n then n else a + 1, 0)
           | Some i \<Rightarrow> (of_nat i, 1))" .
    have ne: "next_enabled items (unat n) (unat a) = next_enabled items (unat n) (unat (a + 1))"
      using True by (simp add: next_enabled_def upt)
    have "\<not> a + 1 < n \<Longrightarrow> a + 1 = n"
      using lt inc by (simp add: word_less_nat_alt word_unat_eq_iff)
    then have e: "(if a + 1 < n then n else a + 1) = n" by auto
    show ?thesis unfolding step ih ne e using an by simp
  next
    case False
    have "menuDown_loop items n a 0 = menuDown_loop items n a 1"
      using False an len
      by (subst menuDown_loop.simps) (simp add: item_at_uint item_disabled_def)
    moreover have "next_enabled items (unat n) (unat a) = Some (unat a)"
      using False by (simp add: next_enabled_def upt)
    ultimately show ?thesis by (simp add: menuDown_loop_found)
  qed
qed

lemma next_enabled_Some:
  "next_enabled items n k = Some i \<Longrightarrow>
   k \<le> i \<and> i < n \<and> \<not> item_disabled (items ! i) \<and> (\<forall>j. k \<le> j \<and> j < i \<longrightarrow> item_disabled (items ! j))"
proof -
  assume "next_enabled items n k = Some i"
  then obtain q where q: "q < length [k..<n]" "\<not> item_disabled (items ! ([k..<n] ! q))"
    "i = [k..<n] ! q" "\<forall>j<q. item_disabled (items ! ([k..<n] ! j))"
    unfolding next_enabled_def find_Some_iff by auto
  from q(1) have qn: "k + q < n" by simp
  with q(3) have i: "i = k + q" by simp
  have "item_disabled (items ! j)" if "k \<le> j" "j < i" for j
  proof -
    from that i have "j - k < q" by simp
    with q(4) have "item_disabled (items ! ([k..<n] ! (j - k)))" by simp
    moreover have "[k..<n] ! (j - k) = j" using that i qn by simp
    ultimately show ?thesis by simp
  qed
  with q(2) i qn show ?thesis by simp
qed

lemma next_enabled_None:
  "next_enabled items n k = None \<longleftrightarrow> (\<forall>j. k \<le> j \<and> j < n \<longrightarrow> item_disabled (items ! j))"
  unfolding next_enabled_def find_None_iff by auto

lemma next_enabled_unique:
  "k \<le> i \<Longrightarrow> i < n \<Longrightarrow> \<not> item_disabled (items ! i) \<Longrightarrow>
   (\<forall>j. k \<le> j \<and> j < i \<longrightarrow> item_disabled (items ! j))
   \<Longrightarrow> next_enabled items n k = Some i"
proof -
  assume a: "k \<le> i" "i < n" "\<not> item_disabled (items ! i)"
    "\<forall>j. k \<le> j \<and> j < i \<longrightarrow> item_disabled (items ! j)"
  from a(1,2,3) have "next_enabled items n k \<noteq> None" by (auto simp add: next_enabled_None)
  then obtain i' where i': "next_enabled items n k = Some i'" by auto
  from next_enabled_Some [OF i'] a have "i' = i"
    by (metis linorder_neqE_nat)
  with i' show ?thesis by simp
qed

lemma menuUp_loop_le:
  "menuUp_loop items a f = Some (a', f') \<Longrightarrow> f = 0 \<Longrightarrow> f' \<noteq> 0 \<Longrightarrow>
   unat a' \<le> unat a \<and> unat a < 128"
proof (induction items a f rule: menuUp_loop.induct)
  case (1 items a f)
  show ?case
  proof (cases "unat a < 128")
    case False
    with "1.prems" show ?thesis by (simp add: menuUp_loop_neg)
  next
    case True
    with "1.prems"(2) have c: "0 \<le>s a \<and> f = 0" by (simp add: sle_zero_int8)
    show ?thesis
    proof (cases "item_at items (sint a)")
      case None
      with c "1.prems"(1) show ?thesis by (subst (asm) menuUp_loop.simps) simp
    next
      case (Some item)
      show ?thesis
      proof (cases "flags item AND M_DISABLED \<noteq> 0")
        case dis: True
        from c Some dis "1.prems"(1) have r: "menuUp_loop items (a - 1) f = Some (a', f')"
          by (subst (asm) menuUp_loop.simps) simp
        from "1.IH"(1) [OF c Some dis r "1.prems"(2,3)]
        have ih: "unat a' \<le> unat (a - 1)" "unat (a - 1) < 128" by simp_all
        have "a \<noteq> 0" using ih(2) by (auto simp add: unat_m1)
        then have "unat (a - 1) = unat a - 1" by (rule unat_dec_int8)
        with ih True show ?thesis by simp
      next
        case en: False
        from c Some en "1.prems"(1) have "menuUp_loop items a 1 = Some (a', f')"
          by (subst (asm) menuUp_loop.simps) simp
        then have "a' = a" by (simp add: menuUp_loop_found)
        with True show ?thesis by simp
      qed
    qed
  qed
qed

lemma unat_div_le8: "unat ((x::8 word) div y) \<le> unat x"
  by (simp add: unat_div div_le_dividend)

lemma menuGetScreen_Some:
  "menuGetScreen cap m x = Some y \<Longrightarrow>
   determineItemsPerScreen cap m \<noteq> 0 \<and> y = x div determineItemsPerScreen cap m"
  by (auto simp add: menuGetScreen_def Let_def split: if_splits)

lemma menuUp_decreases:
  assumes "menuUp cap m = Some (r, m')" and "r \<noteq> 0"
  shows "unat (nCurrentItem m') + unat (nScreen m') < unat (nCurrentItem m) + unat (nScreen m)"
proof -
  from assms(1) obtain a f as cis where
    loop: "menuUp_loop (pItems m) (nCurrentItem m - 1) 0 = Some (a, f)" and
    as: "menuGetScreen cap m a = Some as" and
    cis: "menuGetScreen cap m (nCurrentItem m) = Some cis" and
    res: "(if f \<noteq> 0 \<and> as = nScreen m \<and> cis = nScreen m
           then Some (1, m\<lparr>nCurrentItem := a\<rparr>)
           else if f \<noteq> 0 \<and> sint as = sint (nScreen m) - 1 \<and> nScreen m \<le>s cis
           then Some (1, m\<lparr>nCurrentItem := a, nScreen := nScreen m - 1\<rparr>)
           else if 0 < nScreen m then Some (1, m\<lparr>nScreen := nScreen m - 1\<rparr>)
           else Some (0, m)) = Some (r, m')"
    by (auto simp add: menuUp_def bind_eq_Some_conv Let_def)
  have found: "unat a < unat (nCurrentItem m)" if "f \<noteq> 0"
  proof -
    from menuUp_loop_le [OF loop refl that]
    have le: "unat a \<le> unat (nCurrentItem m - 1)" "unat (nCurrentItem m - 1) < 128" by simp_all
    have "nCurrentItem m \<noteq> 0" using le(2) by (auto simp add: unat_m1)
    then have "unat (nCurrentItem m - 1) = unat (nCurrentItem m) - 1" "unat (nCurrentItem m) \<noteq> 0"
      by (simp_all add: unat_dec_int8 unat_eq_0)
    with le show ?thesis by simp
  qed
  have dec: "unat (nScreen m - 1) = unat (nScreen m) - 1 \<and> unat (nScreen m) \<noteq> 0" if "nScreen m \<noteq> 0"
    using that by (simp add: unat_dec_int8 unat_eq_0)
  consider (c1) "f \<noteq> 0 \<and> as = nScreen m \<and> cis = nScreen m"
    | (c2) "\<not> (f \<noteq> 0 \<and> as = nScreen m \<and> cis = nScreen m)"
           "f \<noteq> 0 \<and> sint as = sint (nScreen m) - 1 \<and> nScreen m \<le>s cis"
    | (c3) "\<not> (f \<noteq> 0 \<and> as = nScreen m \<and> cis = nScreen m)"
           "\<not> (f \<noteq> 0 \<and> sint as = sint (nScreen m) - 1 \<and> nScreen m \<le>s cis)"
    by blast
  then show ?thesis
  proof cases
    case c1
    with res have "m' = m\<lparr>nCurrentItem := a\<rparr>" by simp
    with found c1 show ?thesis by simp
  next
    case c2
    with res have m': "m' = m\<lparr>nCurrentItem := a, nScreen := nScreen m - 1\<rparr>"
      by (auto split: if_splits)
    from c2 have f: "f \<noteq> 0" by simp
    have "unat as \<le> unat a" using menuGetScreen_Some [OF as] by (simp add: unat_div_le8)
    with found [OF f] unat_lt_256 [of "nCurrentItem m"] have "unat as < 128"
      using menuUp_loop_le [OF loop refl f] by simp
    then have "0 \<le> sint as" by (simp add: sint_int8)
    with c2 have "1 \<le> sint (nScreen m)" by simp
    then have "nScreen m \<noteq> 0" by auto
    from dec [OF this] found [OF f] m' show ?thesis by simp
  next
    case c3
    with res assms(2) have "0 < nScreen m" "m' = m\<lparr>nScreen := nScreen m - 1\<rparr>"
      by (auto split: if_splits)
    then show ?thesis using dec [of] by (simp add: word_greater_zero_iff)
  qed
qed

text \<open>\<^verbatim>\<open>while(menuUp(pMenu));\<close>\<close>

function menuPositionTop :: "uint8 \<Rightarrow> menu \<Rightarrow> menu option" where
  "menuPositionTop cap pMenu =
     (case menuUp cap pMenu of
        None \<Rightarrow> None
      | Some (changed, pMenu') \<Rightarrow>
          if changed \<noteq> 0 then menuPositionTop cap pMenu' else Some pMenu')"
  by pat_completeness auto

termination
proof (relation "measure (\<lambda>(cap, m). unat (nCurrentItem m) + unat (nScreen m))")
  show "wf (measure (\<lambda>(cap, m). unat (nCurrentItem m) + unat (nScreen m)))"
    by simp
next
  fix cap :: uint8 and pMenu :: menu and x2 :: "uint8 \<times> menu" and x1 :: uint8 and y :: menu
  assume "menuUp cap pMenu = Some x2" and "(x1, y) = x2" and "x1 \<noteq> 0"
  then have "menuUp cap pMenu = Some (x1, y)" by simp
  from menuUp_decreases [OF this \<open>x1 \<noteq> 0\<close>]
  show "((cap, y), cap, pMenu) \<in> measure (\<lambda>(cap, m). unat (nCurrentItem m) + unat (nScreen m))"
    by simp
qed

declare menuPositionTop.simps [simp del]

text \<open>
  \<^verbatim>\<open>menuEnter\<close> works on the store, because it writes the parent pointer of the submenu.
  \<open>menuEnter_select\<close> is the statement \<^verbatim>\<open>if(pMenu->nSelectedItem > -1)\<close>
  \<^verbatim>\<open>pMenu->nSelectedItem=nCurrentItem\<close>, and \<open>menuEnter_link\<close> the final
  \<^verbatim>\<open>if(pSub)\<close>.  The local \<open>nCurrentItem\<close> and its screen are \<^verbatim>\<open>int8\<close>.
\<close>

definition menuEnter_select :: "addr \<Rightarrow> menu \<Rightarrow> heap \<Rightarrow> heap" where
  "menuEnter_select pMenu m h =
     (if - 1 <s nSelectedItem m
      then h(pMenu \<mapsto> m\<lparr>nSelectedItem := nCurrentItem m\<rparr>) else h)"

definition menuEnter_link ::
  "addr \<Rightarrow> addr option \<Rightarrow> heap \<Rightarrow> app_call list \<Rightarrow> (addr \<times> heap \<times> app_call list) option" where
  "menuEnter_link pMenu pSub h calls =
     (case pSub of
        Some sub \<Rightarrow>
          (case h sub of
             None \<Rightarrow> None
           | Some s \<Rightarrow> Some (sub, h(sub \<mapsto> s\<lparr>pParentMenu := Some pMenu\<rparr>), calls))
      | None \<Rightarrow> Some (pMenu, h, calls))"

definition menuEnter ::
  "uint8 \<Rightarrow> apps \<Rightarrow> addr \<Rightarrow> heap \<Rightarrow> (addr \<times> heap \<times> app_call list) option" where
  "menuEnter cap app pMenu h = do {
     m \<leftarrow> h pMenu;
     nCurrentItemScreen \<leftarrow> menuGetScreen cap m (nCurrentItem m);
     if sint nCurrentItemScreen = uint (nScreen m) then do {
       item \<leftarrow> item_at (pItems m) (sint (nCurrentItem m));
       case pApplication item of
         None \<Rightarrow> menuEnter_link pMenu (pSubMenu item) (menuEnter_select pMenu m h) []
       | Some pApp \<Rightarrow>
           (case app pApp (pAppArgs item) (menuEnter_select pMenu m h) of
              (r, h2) \<Rightarrow>
                if r \<noteq> 0 then Some (pMenu, h2, [(pApp, pAppArgs item)])
                else menuEnter_link pMenu (pSubMenu item) h2 [(pApp, pAppArgs item)])
     }
     else Some (pMenu, h, [])
   }"

text \<open>\<^verbatim>\<open>menuBack\<close> returns the menu to show and the store, in which only the menu left
  may have changed.\<close>

definition menuBack :: "uint8 \<Rightarrow> addr \<Rightarrow> heap \<Rightarrow> (addr \<times> heap) option" where
  "menuBack cap pMenu h = do {
     m \<leftarrow> h pMenu;
     case pParentMenu m of
       Some _ \<Rightarrow> do {
         m' \<leftarrow> (if nSelectedItem m = - 1 then menuPositionTop cap m
                else if nSelectedItem m = - 2 then Some m
                else do {
                  screen \<leftarrow> menuGetScreen cap (m\<lparr>nCurrentItem := nSelectedItem m\<rparr>)
                              (nSelectedItem m);
                  Some (m\<lparr>nCurrentItem := nSelectedItem m, nScreen := screen\<rparr>)
                });
         parent \<leftarrow> pParentMenu m';
         Some (parent, h(pMenu \<mapsto> m'))
       }
     | None \<Rightarrow> Some (pMenu, h)
   }"


section \<open>The menu driver: what is drawn for one item\<close>

subsection \<open>Number of decimals of a float value\<close>

text \<open>
  \<^verbatim>\<open>determineDecimals\<close> works on a C \<^verbatim>\<open>float\<close>.  Every finite float is a rational number
  (an integer times a power of two), and on fractions of such numbers all the operations
  of the function are exact: the fractional part of a float is a float, the products
  with the double constants \<^verbatim>\<open>100000.0\<close> ... \<^verbatim>\<open>1.0\<close> need at most 41 bits and are exact in
  double precision, the integers converted back to \<^verbatim>\<open>float\<close> lie below \<open>2 ^ 24\<close>, and the
  differences compared with \<^verbatim>\<open>0.5\<close> are exact.  The model therefore computes on exact
  rationals.  The casts to \<^verbatim>\<open>int32\<close> truncate towards zero and are undefined outside the range
  of \<^verbatim>\<open>int32\<close>, which is the fault \<open>None\<close>; infinities and NaN are not values of the model.
\<close>

type_synonym c_float = rat

definition int32_of_float :: "c_float \<Rightarrow> int option" where
  "int32_of_float x =
     (let t = (if 0 \<le> x then \<lfloor>x\<rfloor> else - \<lfloor>- x\<rfloor>)
      in if - (2 ^ 31) \<le> t \<and> t < 2 ^ 31 then Some t else None)"

text \<open>The first two statements: the sign is removed and the integer part subtracted.\<close>

definition fraction_part :: "c_float \<Rightarrow> c_float option" where
  "fraction_part number0 = do {
     let number = (if number0 < 0 then number0 * (- 1) else number0);
     whole \<leftarrow> int32_of_float number;
     Some (number - of_int whole)
   }"

text \<open>\<^verbatim>\<open>decimal_k = (int32)(scale*number)*weight\<close>.\<close>

definition truncated :: "c_float \<Rightarrow> c_float \<Rightarrow> int \<Rightarrow> int option" where
  "truncated scale number weight = do {
     t \<leftarrow> int32_of_float (scale * number);
     Some (t * weight)
   }"

text \<open>\<^verbatim>\<open>if(scale*number-(float)decimal_k>0.5) decimal_k++\<close>, with \<open>decimal_k\<close> as it
  stands after the multiplication by its weight.\<close>

definition corrected :: "c_float \<Rightarrow> c_float \<Rightarrow> int \<Rightarrow> int" where
  "corrected scale number decimal =
     (if scale * number - of_int decimal > 1 / 2 then decimal + 1 else decimal)"

definition determineDecimals :: "c_float \<Rightarrow> uint8 option" where
  "determineDecimals number0 = do {
     number \<leftarrow> fraction_part number0;
     decimal_5 \<leftarrow> truncated 100000 number 1;
     decimal_4 \<leftarrow> truncated 10000 number 10;
     decimal_3 \<leftarrow> truncated 1000 number 100;
     decimal_2 \<leftarrow> truncated 100 number 1000;
     decimal_1 \<leftarrow> truncated 10 number 10000;
     decimal_0 \<leftarrow> truncated 1 number 100000;
     let decimal_5 = corrected 100000 number decimal_5;
     let decimal_4 = corrected 10000 number decimal_4;
     let decimal_3 = corrected 1000 number decimal_3;
     let decimal_2 = corrected 100 number decimal_2;
     let decimal_1 = corrected 10 number decimal_1;
     let decimal_0 = corrected 1 number decimal_0;
     if decimal_5 \<noteq> decimal_4 then Some 5
     else if decimal_4 \<noteq> decimal_3 then Some 4
     else if decimal_3 \<noteq> decimal_2 then Some 3
     else if decimal_2 \<noteq> decimal_1 then Some 2
     else if decimal_1 = decimal_0 then Some 0
     else Some 1
   }"

subsection \<open>Printing one item\<close>

text \<open>
  The value of an item is reached through a \<^verbatim>\<open>void\<close> pointer.  The memory it points into is
  a typed store: an address holds a float, an integer or a string, and reading it at
  another type is a fault.  The local pointer \<^verbatim>\<open>pValue\<close> of \<^verbatim>\<open>printItem\<close> is either the
  address of the local one-byte \<^verbatim>\<open>dummyString\<close> or the pointer of the item; read as a string
  the dummy is the empty string, read as a float or an integer it is a fault (the object
  has one byte).

  The display driver is not part of the sources.  Its geometry constants and its length
  functions are parameters (a record), and its three print functions are recorded as
  the list of calls made, with the text or number, the column and the page.
\<close>

type_synonym int16 = "16 word"

type_synonym int32 = "32 word"

datatype c_value = CFloat c_float | CInt int32 | CString string

type_synonym value_mem = "addr \<Rightarrow> c_value option"

datatype value_ptr = DummyString | ItemValue addr

record lcd_driver =
  LCD_CHAR_WIDTH :: int
  LCD_COLS :: int
  MENU_MARGIN :: int
  lcdGetStringLength :: "string \<Rightarrow> int"
  lcdGetFloatLength :: "c_float \<Rightarrow> uint8 \<Rightarrow> int"
  lcdGetIntLength :: "int32 \<Rightarrow> int"

datatype lcd_call =
    lcdBufferPrintString string int16 uint8
  | lcdBufferPrintFloat c_float uint8 int16 uint8
  | lcdBufferPrintInt int32 int16 uint8

definition M_SWAP :: uint16 where "M_SWAP = 0x2000"

definition M_PVALUE_2 :: uint16 where "M_PVALUE_2 = 0x1000"

definition M_PVALUE_1 :: uint16 where "M_PVALUE_1 = 0x0800"

definition M_PVALUE_0 :: uint16 where "M_PVALUE_0 = 0x0400"

definition M_ALIGN_1 :: uint16 where "M_ALIGN_1 = 0x0200"

definition M_ALIGN_0 :: uint16 where "M_ALIGN_0 = 0x0100"

definition M_RIGHT :: uint16 where "M_RIGHT = M_ALIGN_0"

definition M_CENTER :: uint16 where "M_CENTER = M_ALIGN_1"

definition M_SPLIT :: uint16 where "M_SPLIT = M_ALIGN_1 + M_ALIGN_0"

definition M_FLOAT1 :: uint16 where "M_FLOAT1 = M_PVALUE_0"

definition M_FLOAT2 :: uint16 where "M_FLOAT2 = M_PVALUE_1"

definition M_FLOAT3 :: uint16 where "M_FLOAT3 = M_PVALUE_1 + M_PVALUE_0"

definition M_FLOAT4 :: uint16 where "M_FLOAT4 = M_PVALUE_2"

definition M_FLOAT5 :: uint16 where "M_FLOAT5 = M_PVALUE_2 + M_PVALUE_0"

definition M_FLOATA :: uint16 where "M_FLOATA = M_PVALUE_2 + M_PVALUE_1"

definition M_STRING :: uint16 where "M_STRING = M_PVALUE_2 + M_PVALUE_1 + M_PVALUE_0"

definition deref_float :: "value_mem \<Rightarrow> value_ptr \<Rightarrow> c_float option" where
  "deref_float mem p =
     (case p of DummyString \<Rightarrow> None
      | ItemValue a \<Rightarrow> (case mem a of Some (CFloat x) \<Rightarrow> Some x | _ \<Rightarrow> None))"

definition deref_int :: "value_mem \<Rightarrow> value_ptr \<Rightarrow> int32 option" where
  "deref_int mem p =
     (case p of DummyString \<Rightarrow> None
      | ItemValue a \<Rightarrow> (case mem a of Some (CInt i) \<Rightarrow> Some i | _ \<Rightarrow> None))"

definition deref_string :: "value_mem \<Rightarrow> value_ptr \<Rightarrow> string option" where
  "deref_string mem p =
     (case p of DummyString \<Rightarrow> Some []
      | ItemValue a \<Rightarrow> (case mem a of Some (CString s) \<Rightarrow> Some s | _ \<Rightarrow> None))"

text \<open>A text field of the item, or the dummy string when the pointer is null.\<close>

definition text_field :: "string option \<Rightarrow> string" where
  "text_field p = (case p of Some s \<Rightarrow> s | None \<Rightarrow> [])"

text \<open>The local \<^verbatim>\<open>pValue\<close> and the masked \<^verbatim>\<open>pValueFlags\<close>, after the test
  \<^verbatim>\<open>if(pValue==&dummyString) pValueFlags = M_STRING\<close>.\<close>

definition value_field :: "menuItem \<Rightarrow> value_ptr \<times> uint16" where
  "value_field pItem =
     (let pValue' = (case pValue pItem of Some a \<Rightarrow> ItemValue a | None \<Rightarrow> DummyString);
          pValueFlags = flags pItem AND (M_PVALUE_0 OR M_PVALUE_1 OR M_PVALUE_2)
      in (pValue', if pValue' = DummyString then M_STRING else pValueFlags))"

text \<open>An \<^verbatim>\<open>int\<close> expression stored in a \<^verbatim>\<open>uint8\<close> or an \<^verbatim>\<open>int16\<close> variable.\<close>

definition to_uint8 :: "int \<Rightarrow> uint8" where
  "to_uint8 i = word_of_int i"

definition to_int16 :: "int \<Rightarrow> int16" where
  "to_int16 i = word_of_int i"

text \<open>The first \<^verbatim>\<open>switch(pValueFlags)\<close>: the width of the value in pixels, and
  \<^verbatim>\<open>valDecimals\<close>, which only the case \<^verbatim>\<open>M_FLOATA\<close> assigns (0 stands for the unassigned
  variable, which no other case reads).\<close>

definition value_size ::
  "lcd_driver \<Rightarrow> value_mem \<Rightarrow> uint16 \<Rightarrow> value_ptr \<Rightarrow> (uint8 \<times> uint8) option" where
  "value_size drv mem pValueFlags pValue' =
     (if pValueFlags = M_FLOAT1 then do {
        x \<leftarrow> deref_float mem pValue';
        Some (to_uint8 (lcdGetFloatLength drv x 1 * LCD_CHAR_WIDTH drv), 0) }
      else if pValueFlags = M_FLOAT2 then do {
        x \<leftarrow> deref_float mem pValue';
        Some (to_uint8 (lcdGetFloatLength drv x 2 * LCD_CHAR_WIDTH drv), 0) }
      else if pValueFlags = M_FLOAT3 then do {
        x \<leftarrow> deref_float mem pValue';
        Some (to_uint8 (lcdGetFloatLength drv x 3 * LCD_CHAR_WIDTH drv), 0) }
      else if pValueFlags = M_FLOAT4 then do {
        x \<leftarrow> deref_float mem pValue';
        Some (to_uint8 (lcdGetFloatLength drv x 4 * LCD_CHAR_WIDTH drv), 0) }
      else if pValueFlags = M_FLOAT5 then do {
        x \<leftarrow> deref_float mem pValue';
        Some (to_uint8 (lcdGetFloatLength drv x 5 * LCD_CHAR_WIDTH drv), 0) }
      else if pValueFlags = M_FLOATA then do {
        x \<leftarrow> deref_float mem pValue';
        valDecimals \<leftarrow> determineDecimals x;
        Some (to_uint8 (lcdGetFloatLength drv x valDecimals * LCD_CHAR_WIDTH drv), valDecimals) }
      else if pValueFlags = M_STRING then do {
        s \<leftarrow> deref_string mem pValue';
        Some (to_uint8 (lcdGetStringLength drv s * LCD_CHAR_WIDTH drv), 0) }
      else do {
        i \<leftarrow> deref_int mem pValue';
        Some (to_uint8 (lcdGetIntLength drv i * LCD_CHAR_WIDTH drv), 0) })"

text \<open>The line width: \<^verbatim>\<open>numOfMargins\<close> counts the non-empty fields, less one.\<close>

definition total_size :: "lcd_driver \<Rightarrow> uint8 \<Rightarrow> uint8 \<Rightarrow> uint8 \<Rightarrow> int16" where
  "total_size drv nrSize descSize valSize =
     (let numOfMargins = - 1 + (if nrSize \<noteq> 0 then 1 else 0) + (if descSize \<noteq> 0 then 1 else 0)
                           + (if valSize \<noteq> 0 then 1 else (0::int))
      in to_int16 (uint nrSize + uint descSize + uint valSize + numOfMargins * LCD_CHAR_WIDTH drv))"

text \<open>Integer division of C, which truncates towards zero.\<close>

definition c_div :: "int \<Rightarrow> int \<Rightarrow> int" where
  "c_div a b = sgn a * sgn b * (\<bar>a\<bar> div \<bar>b\<bar>)"

definition number_pos :: "lcd_driver \<Rightarrow> uint16 \<Rightarrow> int16 \<Rightarrow> int16" where
  "number_pos drv alignFlags totalSize =
     (if alignFlags = M_RIGHT then to_int16 (LCD_COLS drv - MENU_MARGIN drv - sint totalSize)
      else if alignFlags = M_CENTER
        then to_int16 (c_div (LCD_COLS drv - MENU_MARGIN drv - sint totalSize) 2)
      else to_int16 (MENU_MARGIN drv))"

text \<open>The positions \<open>(descPos, valPos)\<close> of the description and of the value.\<close>

definition field_pos ::
  "lcd_driver \<Rightarrow> uint16 \<Rightarrow> uint16 \<Rightarrow> int16 \<Rightarrow> uint8 \<Rightarrow> uint8 \<Rightarrow> uint8 \<Rightarrow> uint8 \<Rightarrow> int16 \<times> int16" where
  "field_pos drv flags' alignFlags nrPos nrSize descSize valSize selSize =
     (if flags' AND M_SWAP \<noteq> 0 then
        let valPos = to_int16 (sint nrPos + uint nrSize);
            valPos = (if nrSize \<noteq> 0 \<or> selSize \<noteq> 0
                      then to_int16 (sint valPos + LCD_CHAR_WIDTH drv) else valPos)
        in if alignFlags = M_SPLIT
           then (to_int16 (LCD_COLS drv - MENU_MARGIN drv - uint descSize), valPos)
           else
             let descPos = to_int16 (sint valPos + uint valSize);
                 descPos = (if valSize \<noteq> 0
                            then to_int16 (sint descPos + LCD_CHAR_WIDTH drv) else descPos)
             in (descPos, valPos)
      else
        let descPos = to_int16 (sint nrPos + uint nrSize);
            descPos = (if nrSize \<noteq> 0 \<or> selSize \<noteq> 0
                       then to_int16 (sint descPos + LCD_CHAR_WIDTH drv) else descPos)
        in if alignFlags = M_SPLIT
           then (descPos, to_int16 (LCD_COLS drv - MENU_MARGIN drv - uint valSize))
           else
             let valPos = to_int16 (sint descPos + uint descSize);
                 valPos = (if descSize \<noteq> 0
                           then to_int16 (sint valPos + LCD_CHAR_WIDTH drv) else valPos)
             in (descPos, valPos))"

text \<open>The second \<^verbatim>\<open>switch(pValueFlags)\<close>: the call that writes the value.\<close>

definition print_value ::
  "value_mem \<Rightarrow> uint16 \<Rightarrow> value_ptr \<Rightarrow> uint8 \<Rightarrow> int16 \<Rightarrow> uint8 \<Rightarrow> lcd_call option" where
  "print_value mem pValueFlags pValue' valDecimals valPos page =
     (if pValueFlags = M_STRING then do {
        s \<leftarrow> deref_string mem pValue';
        Some (lcdBufferPrintString s valPos page) }
      else if pValueFlags = M_FLOAT1 then do {
        x \<leftarrow> deref_float mem pValue';
        Some (lcdBufferPrintFloat x 1 valPos page) }
      else if pValueFlags = M_FLOAT2 then do {
        x \<leftarrow> deref_float mem pValue';
        Some (lcdBufferPrintFloat x 2 valPos page) }
      else if pValueFlags = M_FLOAT3 then do {
        x \<leftarrow> deref_float mem pValue';
        Some (lcdBufferPrintFloat x 3 valPos page) }
      else if pValueFlags = M_FLOAT4 then do {
        x \<leftarrow> deref_float mem pValue';
        Some (lcdBufferPrintFloat x 4 valPos page) }
      else if pValueFlags = M_FLOAT5 then do {
        x \<leftarrow> deref_float mem pValue';
        Some (lcdBufferPrintFloat x 5 valPos page) }
      else if pValueFlags = M_FLOATA then do {
        x \<leftarrow> deref_float mem pValue';
        Some (lcdBufferPrintFloat x valDecimals valPos page) }
      else do {
        i \<leftarrow> deref_int mem pValue';
        Some (lcdBufferPrintInt i valPos page) })"

definition printItem ::
  "lcd_driver \<Rightarrow> value_mem \<Rightarrow> menu \<Rightarrow> uint8 \<Rightarrow> uint8 \<Rightarrow> uint8 \<Rightarrow> lcd_call list option" where
  "printItem drv mem pMenu nItem page nrSize0 = do {
     pItem \<leftarrow> item_at (pItems pMenu) (uint nItem);
     let selected = (uint nItem = sint (nSelectedItem pMenu));
     let (pValue', pValueFlags) = value_field pItem;
     let alignFlags = flags pItem AND (M_ALIGN_0 OR M_ALIGN_1);
     let nrSize = (if nrSize0 = 0
                   then to_uint8 (lcdGetStringLength drv (text_field (pTextNumber pItem))
                                   * LCD_CHAR_WIDTH drv)
                   else nrSize0);
     let descSize = to_uint8 (lcdGetStringLength drv (text_field (pTextDescription pItem))
                               * LCD_CHAR_WIDTH drv);
     let selSize = to_uint8 ((if sint (nSelectedItem pMenu) \<noteq> - 1 then 1 else 0)
                              * LCD_CHAR_WIDTH drv);
     (valSize, valDecimals) \<leftarrow> value_size drv mem pValueFlags pValue';
     let nrPos = number_pos drv alignFlags (total_size drv nrSize descSize valSize);
     let selPos = to_int16 (sint nrPos + uint nrSize);
     let (descPos, valPos) =
           field_pos drv (flags pItem) alignFlags nrPos nrSize descSize valSize selSize;
     value_call \<leftarrow> print_value mem pValueFlags pValue' valDecimals valPos page;
     Some ([lcdBufferPrintString (text_field (pTextNumber pItem)) nrPos page,
            lcdBufferPrintString (text_field (pTextDescription pItem)) descPos page]
           @ (if selected then [lcdBufferPrintString ''~'' selPos page] else [])
           @ [value_call])
   }"

section \<open>Notions used in the statements\<close>

text \<open>
  A menu is well formed when \<open>nMenuItems\<close> is the length of \<open>pItems\<close>, there are at most
  128 items (\<open>menuUp\<close> keeps item indices in \<^verbatim>\<open>int8\<close> variables) and the current index is
  below \<open>nMenuItems\<close>, or is 0 in a menu without items.  The invariant of the data model
  (\<open>data_model_inv\<close>) says that the number of items per screen is not zero, that the
  current item is enabled unless every item is disabled, and that \<open>nScreen\<close> is the screen
  of the current item.  \<open>screen_not_skipping\<close> is the weaker relation between \<open>nScreen\<close>
  and the current item that \<open>menuUp\<close> itself maintains.

  \<open>up_blocked\<close> says that no item before the current one that lies on the screen
  \<open>nScreen\<close> or on the screen before it is enabled, and \<open>down_blocked\<close> that no item after
  the current one that lies on the screen \<open>nScreen\<close> or on the next one is enabled;
  \<open>last_screen\<close> is the screen of the last item.

  \<open>upN\<close> and \<open>downN\<close> are the steps of \<open>menuUp\<close> and \<open>menuDown\<close> on the pair (current
  item, screen) read as natural numbers, with \<open>d\<close> items per screen; they are related to
  the two functions by \<open>menuUp_refine\<close> and \<open>menuDown_refine\<close> below.  \<open>top_target\<close> is the
  lowest enabled index below the current one (the current one when there is none), and
  \<open>top_inv\<close> the loop invariant of \<open>menuPositionTop\<close>.
\<close>

definition menu_wf :: "menu \<Rightarrow> bool" where
  "menu_wf m \<longleftrightarrow>
     length (pItems m) = unat (nMenuItems m) \<and> unat (nMenuItems m) \<le> 128
     \<and> unat (nCurrentItem m) < max 1 (unat (nMenuItems m))"

definition current_enabled :: "menu \<Rightarrow> bool" where
  "current_enabled m \<longleftrightarrow>
     (unat (nCurrentItem m) < length (pItems m)
        \<and> \<not> item_disabled (pItems m ! unat (nCurrentItem m)))
     \<or> list_all item_disabled (pItems m)"

definition screen_consistent :: "uint8 \<Rightarrow> menu \<Rightarrow> bool" where
  "screen_consistent cap m \<longleftrightarrow> menuGetScreen cap m (nCurrentItem m) = Some (nScreen m)"

definition data_model_inv :: "uint8 \<Rightarrow> menu \<Rightarrow> bool" where
  "data_model_inv cap m \<longleftrightarrow>
     determineItemsPerScreen cap m \<noteq> 0 \<and> current_enabled m \<and> screen_consistent cap m"

definition screen_not_skipping :: "uint8 \<Rightarrow> menu \<Rightarrow> bool" where
  "screen_not_skipping cap m \<longleftrightarrow>
     (unat (nScreen m) < unat (nCurrentItem m) div unat (determineItemsPerScreen cap m) \<longrightarrow>
        (\<forall>a<unat (nCurrentItem m). \<not> item_disabled (pItems m ! a) \<longrightarrow>
           a div unat (determineItemsPerScreen cap m) < unat (nScreen m)))"

definition up_blocked :: "uint8 \<Rightarrow> menu \<Rightarrow> bool" where
  "up_blocked cap m \<longleftrightarrow>
     (\<forall>a<unat (nCurrentItem m).
        unat (nScreen m) \<le> a div unat (determineItemsPerScreen cap m) + 1 \<longrightarrow>
        item_disabled (pItems m ! a))"

definition down_blocked :: "uint8 \<Rightarrow> menu \<Rightarrow> bool" where
  "down_blocked cap m \<longleftrightarrow>
     (\<forall>b<unat (nMenuItems m).
        unat (nCurrentItem m) < b
          \<and> b div unat (determineItemsPerScreen cap m) \<le> unat (nScreen m) + 1 \<longrightarrow>
        item_disabled (pItems m ! b))"

definition last_screen :: "uint8 \<Rightarrow> menu \<Rightarrow> nat" where
  "last_screen cap m = (unat (nMenuItems m) - 1) div unat (determineItemsPerScreen cap m)"

definition upN :: "nat \<Rightarrow> menuItem list \<Rightarrow> nat \<Rightarrow> nat \<Rightarrow> bool \<times> nat \<times> nat" where
  "upN d items c s =
     (case prev_enabled items c of
        Some a \<Rightarrow>
          if a div d = s \<and> c div d = s then (True, a, s)
          else if a div d + 1 = s \<and> s \<le> c div d then (True, a, s - 1)
          else if 0 < s then (True, c, s - 1) else (False, c, s)
      | None \<Rightarrow> if 0 < s then (True, c, s - 1) else (False, c, s))"

definition downN :: "nat \<Rightarrow> menuItem list \<Rightarrow> nat \<Rightarrow> nat \<Rightarrow> nat \<Rightarrow> bool \<times> nat \<times> nat" where
  "downN d items n c s =
     (case next_enabled items n (Suc c) of
        Some b \<Rightarrow>
          if b div d = s \<and> c div d = s then (True, b, s)
          else if b div d = s + 1 \<and> c div d \<le> s then (True, b, s + 1)
          else if s < (if 0 < n then (n - 1) div d else 0) then (True, c, s + 1)
          else (False, c, s)
      | None \<Rightarrow> if s < (if 0 < n then (n - 1) div d else 0) then (True, c, s + 1)
                else (False, c, s))"

definition set_cursor :: "menu \<Rightarrow> nat \<Rightarrow> nat \<Rightarrow> menu" where
  "set_cursor m c s = m\<lparr>nCurrentItem := of_nat c, nScreen := of_nat s\<rparr>"

definition top_target :: "menuItem list \<Rightarrow> nat \<Rightarrow> nat" where
  "top_target items c = (case next_enabled items c 0 of None \<Rightarrow> c | Some i \<Rightarrow> i)"

definition top_inv :: "nat \<Rightarrow> menuItem list \<Rightarrow> nat \<Rightarrow> nat \<Rightarrow> bool" where
  "top_inv d items c s \<longleftrightarrow>
     (s < c div d \<longrightarrow> (\<forall>a<c. \<not> item_disabled (items ! a) \<longrightarrow> a div d < s))"

text \<open>
  The number of decimals as the specification words it, to be compared with
  \<open>determineDecimals\<close>: the fractional part is cut after \<open>k\<close> decimals, rounded up when
  the part cut off exceeds one half, and expressed in units of \<open>10\<^sup>-\<^sup>5\<close>; the result is the
  least \<open>k\<close> whose value agrees with that of five decimals.
\<close>

definition quantized :: "nat \<Rightarrow> c_float \<Rightarrow> int" where
  "quantized k f =
     (let x = 10 ^ k * f; t = \<lfloor>x\<rfloor>
      in (if x - of_int t > 1 / 2 then t + 1 else t) * 10 ^ (5 - k))"

definition minimal_decimals :: "c_float \<Rightarrow> nat option" where
  "minimal_decimals x =
     (let f = \<bar>x\<bar> - of_int \<lfloor>\<bar>x\<bar>\<rfloor>
      in find (\<lambda>k. quantized k f = quantized 5 f) [0..<6])"

text \<open>The calls that print a number, that is, that were given a value read through
  \<^verbatim>\<open>pValueFloat\<close> or \<^verbatim>\<open>pValueInt\<close>.\<close>

fun prints_number :: "lcd_call \<Rightarrow> bool" where
  "prints_number (lcdBufferPrintString s x p) = False"
| "prints_number (lcdBufferPrintFloat v d x p) = True"
| "prints_number (lcdBufferPrintInt i x p) = True"

subsection \<open>Concrete menus\<close>

text \<open>
  Menus, items, a callback behaviour and a driver on which the statements are
  evaluated.  The example driver has characters of 6 pixels on 128 columns and measures a
  string by its number of characters.
\<close>

definition empty_menu :: "uint8 \<Rightarrow> menu" where
  "empty_menu r = \<lparr>pItems = [], pParentMenu = None, pMenuGraphics = None,
     pTextHeader = None, pTextMenuItems = None, nMenuItems = 0, nCurrentItem = 0,
     nSelectedItem = - 1, nScreen = 0, reservedAreas = r\<rparr>"

definition example_item :: "uint16 \<Rightarrow> addr option \<Rightarrow> addr option \<Rightarrow> menuItem" where
  "example_item fl sub appl =
     \<lparr>flags = fl, pTextNumber = None, pTextDescription = None, pValue = None,
      pSubMenu = sub, pItemGraphics = None, pApplication = appl, pAppArgs = None\<rparr>"

definition example_menu ::
  "menuItem list \<Rightarrow> addr option \<Rightarrow> uint8 \<Rightarrow> int8 \<Rightarrow> uint8 \<Rightarrow> uint8 \<Rightarrow> menu" where
  "example_menu items parent cur sel scr res =
     \<lparr>pItems = items, pParentMenu = parent, pMenuGraphics = None, pTextHeader = None,
      pTextMenuItems = None, nMenuItems = of_nat (length items), nCurrentItem = cur,
      nSelectedItem = sel, nScreen = scr, reservedAreas = res\<rparr>"

definition item_on :: menuItem where
  "item_on = example_item 0 None None"

definition item_off :: menuItem where
  "item_off = example_item M_DISABLED None None"

definition app_idle :: apps where
  "app_idle f a s = (0, s)"

definition example_driver :: lcd_driver where
  "example_driver =
     \<lparr>LCD_CHAR_WIDTH = 6, LCD_COLS = 128, MENU_MARGIN = 2,
      lcdGetStringLength = (\<lambda>s. int (length s)),
      lcdGetFloatLength = (\<lambda>x d. 3 + uint d),
      lcdGetIntLength = (\<lambda>i. 1)\<rparr>"

definition labelled_item :: "uint16 \<Rightarrow> menuItem" where
  "labelled_item fl =
     \<lparr>flags = fl, pTextNumber = Some ''1'', pTextDescription = Some ''Gain'', pValue = None,
      pSubMenu = None, pItemGraphics = None, pApplication = None, pAppArgs = None\<rparr>"

section \<open>Properties\<close>

lemma reserved_test: "(uint (r::8 word)) AND (push_bit n 1) \<noteq> 0 \<longleftrightarrow> bit r n"
proof -
  have "bit (uint r) n \<longleftrightarrow> uint r AND push_bit n 1 \<noteq> 0"
    by (rule bit_iff_and_push_bit_not_eq_0)
  then show ?thesis by (auto simp add: bit_uint_iff dest: bit_imp_le_length)
qed

lemma fold_decrement:
  "fold (\<lambda>b (acc::8 word). if P b then acc - 1 else acc) xs c = c - of_nat (length (filter P xs))"
  by (induction xs arbitrary: c) auto

lemma determineItemsPerScreen_count:
  "determineItemsPerScreen cap m = cap - of_nat (length (filter (bit (reservedAreas m)) [1..<8]))"
  unfolding determineItemsPerScreen_def reserved_test by (rule fold_decrement)

lemma filter_one_more:
  "distinct xs \<Longrightarrow> b \<in> set xs \<Longrightarrow> \<not> P b \<Longrightarrow>
   length (filter (\<lambda>x. P x \<or> x = b) xs) = Suc (length (filter P xs))"
proof (induction xs)
  case Nil
  then show ?case by simp
next
  case (Cons x xs)
  show ?case
  proof (cases "x = b")
    case True
    with Cons.prems have "b \<notin> set xs" by simp
    then have "filter (\<lambda>x. P x \<or> x = b) xs = filter P xs"
      by (intro filter_cong) auto
    with True Cons.prems show ?thesis by simp
  next
    case False
    with Cons show ?thesis by auto
  qed
qed

lemma reserved_count_set_bit:
  assumes "1 \<le> b" "b \<le> 7" "\<not> bit r b"
  shows "length (filter (bit (set_bit b (r::8 word))) [1..<8]) = Suc (length (filter (bit r) [1..<8]))"
proof -
  have "filter (bit (set_bit b r)) [1..<8] = filter (\<lambda>x. bit r x \<or> x = b) [1..<8]"
    by (rule filter_cong) (auto simp add: bit_set_bit_iff)
  moreover have "length (filter (\<lambda>x. bit r x \<or> x = b) [1..<8]) = Suc (length (filter (bit r) [1..<8]))"
    using assms by (intro filter_one_more) auto
  ultimately show ?thesis by simp
qed

text \<open>
  Claim C8.  \<open>determineItemsPerScreen\<close> returns the fixed per-screen capacity minus the
  number of set bits among bits 1 to 7 of the reserved-areas mask (in the \<open>uint8\<close>
  arithmetic of the code, and as a natural number whenever the capacity is at least
  that count).  Bit 0, the header row, does not contribute: setting or clearing it
  leaves the result unchanged.  Reserving one more non-header row decreases the
  result by exactly one.
\<close>

theorem determineItemsPerScreen_reserved_rows:
  "determineItemsPerScreen cap m =
     cap - of_nat (length (filter (bit (reservedAreas m)) [1..<8]))
   \<and> (length (filter (bit (reservedAreas m)) [1..<8]) \<le> unat cap \<longrightarrow>
        unat (determineItemsPerScreen cap m) =
          unat cap - length (filter (bit (reservedAreas m)) [1..<8]))
   \<and> determineItemsPerScreen cap (m\<lparr>reservedAreas := set_bit 0 (reservedAreas m)\<rparr>) =
        determineItemsPerScreen cap m
   \<and> determineItemsPerScreen cap (m\<lparr>reservedAreas := unset_bit 0 (reservedAreas m)\<rparr>) =
        determineItemsPerScreen cap m
   \<and> (\<forall>b\<in>{1..7}. \<not> bit (reservedAreas m) b \<longrightarrow>
        determineItemsPerScreen cap (m\<lparr>reservedAreas := set_bit b (reservedAreas m)\<rparr>) =
          determineItemsPerScreen cap m - 1)"
proof -
  let ?k = "length (filter (bit (reservedAreas m)) [1..<8])"
  have k7: "?k \<le> 7" using length_filter_le [of "bit (reservedAreas m)" "[1..<8]"] by simp
  have nat_eq: "unat (determineItemsPerScreen cap m) = unat cap - ?k" if "?k \<le> unat cap"
  proof -
    have "unat (of_nat ?k :: 8 word) = ?k" using k7 by (simp add: unat_of_nat)
    moreover from this that have "(of_nat ?k :: 8 word) \<le> cap" by (simp add: word_le_nat_alt)
    ultimately show ?thesis by (simp add: determineItemsPerScreen_count unat_sub)
  qed
  have set0: "filter (bit (set_bit 0 (reservedAreas m))) [1..<8] = filter (bit (reservedAreas m)) [1..<8]"
    by (rule filter_cong) (auto simp add: bit_set_bit_iff)
  have unset0: "filter (bit (unset_bit 0 (reservedAreas m))) [1..<8] = filter (bit (reservedAreas m)) [1..<8]"
    by (rule filter_cong) (auto simp add: bit_unset_bit_iff)
  have more: "determineItemsPerScreen cap (m\<lparr>reservedAreas := set_bit b (reservedAreas m)\<rparr>) =
          determineItemsPerScreen cap m - 1" if "b \<in> {1..7}" "\<not> bit (reservedAreas m) b" for b
  proof -
    from that have c: "length (filter (bit (set_bit b (reservedAreas m))) [1..<8]) = Suc ?k"
      by (intro reserved_count_set_bit) auto
    have "determineItemsPerScreen cap (m\<lparr>reservedAreas := set_bit b (reservedAreas m)\<rparr>) =
        cap - of_nat (length (filter (bit (set_bit b (reservedAreas m))) [1..<8]))"
      unfolding determineItemsPerScreen_count by simp
    also have "\<dots> = cap - of_nat (Suc ?k)" unfolding c ..
    also have "\<dots> = determineItemsPerScreen cap m - 1"
      unfolding determineItemsPerScreen_count by simp
    finally show ?thesis .
  qed
  have sel: "reservedAreas (m\<lparr>reservedAreas := x\<rparr>) = x" for x by simp
  have p1: "determineItemsPerScreen cap m = cap - of_nat ?k"
    by (rule determineItemsPerScreen_count)
  have p2: "?k \<le> unat cap \<longrightarrow> unat (determineItemsPerScreen cap m) = unat cap - ?k"
    using nat_eq by blast
  have p3: "determineItemsPerScreen cap (m\<lparr>reservedAreas := set_bit 0 (reservedAreas m)\<rparr>) =
        determineItemsPerScreen cap m"
    unfolding determineItemsPerScreen_count sel set0 ..
  have p4: "determineItemsPerScreen cap (m\<lparr>reservedAreas := unset_bit 0 (reservedAreas m)\<rparr>) =
        determineItemsPerScreen cap m"
    unfolding determineItemsPerScreen_count sel unset0 ..
  have p5: "\<forall>b\<in>{1..7}. \<not> bit (reservedAreas m) b \<longrightarrow>
        determineItemsPerScreen cap (m\<lparr>reservedAreas := set_bit b (reservedAreas m)\<rparr>) =
          determineItemsPerScreen cap m - 1"
    using more by blast
  from p1 p2 p3 p4 p5 show ?thesis by blast
qed

theorem determineItemsPerScreen_reserved_rows_witness:
  "determineItemsPerScreen 7 (empty_menu 0x07) = 5
   \<and> unat (determineItemsPerScreen 7 (empty_menu 0x07)) = 7 - 2
   \<and> determineItemsPerScreen 7 (empty_menu 0x06) = 5
   \<and> determineItemsPerScreen 7 (empty_menu 0x0F) = 4"
proof -
  note t = determineItemsPerScreen_reserved_rows [of 7 "empty_menu 0x07"]
  have r: "reservedAreas (empty_menu 0x07) = 0x07" by (simp add: empty_menu_def)
  have f: "filter (bit (7::8 word)) [1..<8] = [1, 2]"
    by (simp add: upt_rec)
  have s: "empty_menu 0x07\<lparr>reservedAreas := set_bit 3 (reservedAreas (empty_menu 0x07))\<rparr> = empty_menu 0x0F"
    "empty_menu 0x07\<lparr>reservedAreas := unset_bit 0 (reservedAreas (empty_menu 0x07))\<rparr> = empty_menu 0x06"
    by (simp_all add: empty_menu_def)
  have b: "(3::nat) \<in> {1..7}" "\<not> bit (reservedAreas (empty_menu 0x07)) (3::nat)"
    by (simp_all add: r)
  from t have "determineItemsPerScreen 7 (empty_menu 0x07) =
      7 - of_nat (length (filter (bit (reservedAreas (empty_menu 0x07))) [1..<8]))"
    by blast
  then have c1: "determineItemsPerScreen 7 (empty_menu 0x07) = 5"
    unfolding r f by simp
  from t have "length (filter (bit (reservedAreas (empty_menu 0x07))) [1..<8]) \<le> unat (7::8 word) \<longrightarrow>
      unat (determineItemsPerScreen 7 (empty_menu 0x07)) =
      unat (7::8 word) - length (filter (bit (reservedAreas (empty_menu 0x07))) [1..<8])"
    by blast
  then have c2: "unat (determineItemsPerScreen 7 (empty_menu 0x07)) = 7 - 2"
    unfolding r f by simp
  from t have "determineItemsPerScreen 7
      (empty_menu 0x07\<lparr>reservedAreas := unset_bit 0 (reservedAreas (empty_menu 0x07))\<rparr>) =
      determineItemsPerScreen 7 (empty_menu 0x07)"
    by blast
  then have c3: "determineItemsPerScreen 7 (empty_menu 0x06) = 5"
    unfolding s c1 .
  from t b have "determineItemsPerScreen 7
      (empty_menu 0x07\<lparr>reservedAreas := set_bit 3 (reservedAreas (empty_menu 0x07))\<rparr>) =
      determineItemsPerScreen 7 (empty_menu 0x07) - 1"
    by blast
  then have c4: "determineItemsPerScreen 7 (empty_menu 0x0F) = 4"
    unfolding s c1 by simp
  from c1 c2 c3 c4 show ?thesis by blast
qed

lemma sint_eq_uint_int8: "sint (x::8 word) = uint (y::8 word) \<longleftrightarrow> x = y \<and> unat y < 128"
proof
  assume a: "sint x = uint y"
  have "0 \<le> uint y" by simp
  with a have "0 \<le> sint x" by simp
  then have x: "unat x < 128" using unat_lt_256 [of x] by (simp add: sint_int8 split: if_splits)
  with a have "int (unat x) = uint y" by (simp add: sint_int8)
  then have "uint x = uint y" by simp
  then have "x = y" by (simp add: word_uint_eq_iff)
  with x show "x = y \<and> unat y < 128" by simp
next
  assume "x = y \<and> unat y < 128"
  then show "sint x = uint y" by (simp add: sint_int8)
qed


text \<open>
  Claim C7.  When the screen of the current item differs from the current screen index,
  \<open>menuEnter\<close> returns the same menu and changes nothing: the store is returned as it
  was (so \<open>nSelectedItem\<close>, \<open>nCurrentItem\<close> and \<open>nScreen\<close> are unchanged and no
  parent pointer is written), and the list of callback invocations is empty, whatever
  the callbacks \<open>app\<close> would do.
\<close>

theorem menuEnter_off_screen:
  assumes "h pMenu = Some m"
    and "menuGetScreen cap m (nCurrentItem m) = Some screen"
    and "screen \<noteq> nScreen m"
  shows "menuEnter cap app pMenu h = Some (pMenu, h, [])"
  using assms by (simp add: menuEnter_def sint_eq_uint_int8)

lemma determineItemsPerScreen_example [simp]:
  "determineItemsPerScreen 7 (example_menu items parent cur sel scr 0) = 7"
  "determineItemsPerScreen 7 (example_menu items parent cur sel scr 0x7E) = 1"
  by (simp_all add: determineItemsPerScreen_def example_menu_def upt_rec)

lemma example_menu_sel [simp]:
  "pItems (example_menu items parent cur sel scr res) = items"
  "pParentMenu (example_menu items parent cur sel scr res) = parent"
  "nMenuItems (example_menu items parent cur sel scr res) = of_nat (length items)"
  "nCurrentItem (example_menu items parent cur sel scr res) = cur"
  "nSelectedItem (example_menu items parent cur sel scr res) = sel"
  "nScreen (example_menu items parent cur sel scr res) = scr"
  "reservedAreas (example_menu items parent cur sel scr res) = res"
  by (simp_all add: example_menu_def)

lemma example_menu_upd [simp]:
  "example_menu items parent cur sel scr res\<lparr>nCurrentItem := cur'\<rparr> = example_menu items parent cur' sel scr res"
  "example_menu items parent cur sel scr res\<lparr>nScreen := scr'\<rparr> = example_menu items parent cur sel scr' res"
  "example_menu items parent cur sel scr res\<lparr>nSelectedItem := sel'\<rparr> = example_menu items parent cur sel' scr res"
  "example_menu items parent cur sel scr res\<lparr>pParentMenu := parent'\<rparr> = example_menu items parent' cur sel scr res"
  by (simp_all add: example_menu_def)

lemma example_item_sel [simp]:
  "flags (example_item fl sub appl) = fl"
  "pSubMenu (example_item fl sub appl) = sub"
  "pApplication (example_item fl sub appl) = appl"
  "pAppArgs (example_item fl sub appl) = None"
  by (simp_all add: example_item_def)

theorem menuEnter_off_screen_witness:
  "menuEnter 7 (\<lambda>f a s. (1, Map.empty)) 0
     [0 \<mapsto> example_menu [example_item 0 (Some 1) (Some 5)] None 0 0 1 0] =
   Some (0, [0 \<mapsto> example_menu [example_item 0 (Some 1) (Some 5)] None 0 0 1 0], [])"
proof -
  let ?m = "example_menu [example_item 0 (Some 1) (Some 5)] None 0 0 1 0"
  have 1: "[0 \<mapsto> ?m] (0::nat) = Some ?m" by simp
  have 2: "menuGetScreen 7 ?m (nCurrentItem ?m) = Some 0"
    by (simp add: menuGetScreen_def)
  have 3: "(0::8 word) \<noteq> nScreen ?m" by simp
  from menuEnter_off_screen [where h = "[0 \<mapsto> ?m]" and pMenu = 0 and m = ?m, OF 1 2 3]
  show ?thesis .
qed







lemma determineItemsPerScreen_cursor [simp]:
  "determineItemsPerScreen cap (m\<lparr>nCurrentItem := c\<rparr>) = determineItemsPerScreen cap m"
  "determineItemsPerScreen cap (m\<lparr>nScreen := s\<rparr>) = determineItemsPerScreen cap m"
  "determineItemsPerScreen cap (m\<lparr>nSelectedItem := x\<rparr>) = determineItemsPerScreen cap m"
  "determineItemsPerScreen cap (m\<lparr>pParentMenu := p\<rparr>) = determineItemsPerScreen cap m"
  by (simp_all add: determineItemsPerScreen_def)

lemma menuGetScreen_cursor [simp]:
  "menuGetScreen cap (m\<lparr>nCurrentItem := c\<rparr>) = menuGetScreen cap m"
  "menuGetScreen cap (m\<lparr>nScreen := s\<rparr>) = menuGetScreen cap m"
  "menuGetScreen cap (m\<lparr>nSelectedItem := x\<rparr>) = menuGetScreen cap m"
  "menuGetScreen cap (m\<lparr>pParentMenu := p\<rparr>) = menuGetScreen cap m"
  by (simp_all add: menuGetScreen_def fun_eq_iff)






lemmas nav_eval = menuPositionTop.simps menuUp_def menuDown_def menuUp_loop.simps
  menuDown_loop.simps menuGetScreen_def item_at_def item_on_def item_off_def M_DISABLED_def
  word_sle_eq word_sless_alt



lemma menuEnter_link_frame:
  assumes "menuEnter_link pMenu pSub h calls = Some (q, h', calls')"
  shows "(q = pMenu \<and> pSub = None \<and> h' = h) \<or>
         (pSub = Some q \<and> (\<exists>s. h q = Some s \<and> h' = h(q \<mapsto> s\<lparr>pParentMenu := Some pMenu\<rparr>)))"
  using assms by (auto simp add: menuEnter_link_def split: option.splits)

lemma menuEnter_frame:
  assumes res: "menuEnter cap app pMenu h = Some (q, h', calls)"
    and app: "\<forall>f a s. snd (app f a s) = s"
  shows "(\<forall>a. a \<noteq> pMenu \<and> a \<noteq> q \<longrightarrow> h' a = h a)
     \<and> (\<exists>m m'. h pMenu = Some m \<and> h' pMenu = Some m'
            \<and> m' = m\<lparr>nSelectedItem := nSelectedItem m', pParentMenu := pParentMenu m'\<rparr>
            \<and> (q \<noteq> pMenu \<longrightarrow> pParentMenu m' = pParentMenu m))
     \<and> (q \<noteq> pMenu \<longrightarrow> (\<exists>s. h q = Some s \<and> h' q = Some (s\<lparr>pParentMenu := Some pMenu\<rparr>)))"
proof -
  from res obtain m scr where m: "h pMenu = Some m"
    and scr: "menuGetScreen cap m (nCurrentItem m) = Some scr"
    by (auto simp add: menuEnter_def bind_eq_Some_conv)
  let ?h1 = "menuEnter_select pMenu m h"
  let ?P = "\<lambda>h1 q h'. (\<forall>a. a \<noteq> pMenu \<and> a \<noteq> q \<longrightarrow> h' a = h a)
     \<and> (\<exists>m'. h' pMenu = Some m'
            \<and> m' = m\<lparr>nSelectedItem := nSelectedItem m', pParentMenu := pParentMenu m'\<rparr>
            \<and> (q \<noteq> pMenu \<longrightarrow> pParentMenu m' = pParentMenu m))
     \<and> (q \<noteq> pMenu \<longrightarrow> (\<exists>s. h q = Some s \<and> h' q = Some (s\<lparr>pParentMenu := Some pMenu\<rparr>)))"
  have h1: "(\<forall>a. a \<noteq> pMenu \<longrightarrow> ?h1 a = h a)
      \<and> (\<exists>m1. ?h1 pMenu = Some m1 \<and> m1 = m\<lparr>nSelectedItem := nSelectedItem m1\<rparr>)"
    using m by (simp add: menuEnter_select_def)
  have stay: "?P ?h1 pMenu ?h1" using h1 by auto
  have link: "?P ?h1 q h'" if "menuEnter_link pMenu pSub ?h1 cs = Some (q, h', calls)" for pSub cs
  proof -
    from menuEnter_link_frame [OF that]
    show ?thesis
    proof
      assume "q = pMenu \<and> pSub = None \<and> h' = ?h1"
      with stay show ?thesis by simp
    next
      assume "pSub = Some q \<and> (\<exists>s. ?h1 q = Some s \<and> h' = ?h1(q \<mapsto> s\<lparr>pParentMenu := Some pMenu\<rparr>))"
      then obtain s where s: "?h1 q = Some s" "h' = ?h1(q \<mapsto> s\<lparr>pParentMenu := Some pMenu\<rparr>)"
        by blast
      from h1 obtain m1 where m1: "?h1 pMenu = Some m1" "m1 = m\<lparr>nSelectedItem := nSelectedItem m1\<rparr>"
        by blast
      show ?thesis
      proof (cases "q = pMenu")
        case True
        with s m1 have "h' pMenu = Some (m1\<lparr>pParentMenu := Some pMenu\<rparr>)" by simp
        moreover have "m1\<lparr>pParentMenu := Some pMenu\<rparr> =
            m\<lparr>nSelectedItem := nSelectedItem (m1\<lparr>pParentMenu := Some pMenu\<rparr>),
              pParentMenu := pParentMenu (m1\<lparr>pParentMenu := Some pMenu\<rparr>)\<rparr>"
          by (subst m1(2)) simp
        ultimately show ?thesis using True s h1 by auto
      next
        case False
        with s h1 have hq: "h q = Some s" by auto
        from False s m1 have "h' pMenu = Some m1" by simp
        moreover have par: "pParentMenu m1 = pParentMenu m" by (subst m1(2)) simp
        moreover have "m1 = m\<lparr>nSelectedItem := nSelectedItem m1, pParentMenu := pParentMenu m1\<rparr>"
          by (subst m1(2)) (simp add: par)
        ultimately show ?thesis using False s h1 hq by auto
      qed
    qed
  qed
  have "?P ?h1 q h'"
  proof (cases "sint scr = uint (nScreen m)")
    case False
    with res m scr have "q = pMenu" "h' = h" by (simp_all add: menuEnter_def)
    with m show ?thesis by auto
  next
    case True
    with res m scr obtain item where
      item: "item_at (pItems m) (sint (nCurrentItem m)) = Some item"
      by (auto simp add: menuEnter_def bind_eq_Some_conv)
    show ?thesis
    proof (cases "pApplication item")
      case None
      with res m scr True item
      have "menuEnter_link pMenu (pSubMenu item) ?h1 [] = Some (q, h', calls)"
        by (simp add: menuEnter_def)
      then show ?thesis by (rule link)
    next
      case (Some f)
      obtain r h2 where cb: "app f (pAppArgs item) ?h1 = (r, h2)"
        by (cases "app f (pAppArgs item) ?h1")
      from app have "snd (app f (pAppArgs item) ?h1) = ?h1" by blast
      with cb have h2: "h2 = ?h1" by simp
      show ?thesis
      proof (cases "r \<noteq> 0")
        case True
        with res m scr \<open>sint scr = uint (nScreen m)\<close> item Some cb h2
        have "q = pMenu" "h' = ?h1" by (auto simp add: menuEnter_def)
        with stay show ?thesis by simp
      next
        case False
        with res m scr \<open>sint scr = uint (nScreen m)\<close> item Some cb h2
        have "menuEnter_link pMenu (pSubMenu item) ?h1 [(f, pAppArgs item)] = Some (q, h', calls)"
          by (simp add: menuEnter_def)
        then show ?thesis by (rule link)
      qed
    qed
  qed
  with m show ?thesis by simp
qed







lemma unat_of_nat8: "k < 256 \<Longrightarrow> unat (of_nat k :: 8 word) = k"
  by (simp add: unat_of_nat)

lemma of_nat_unat8: "(of_nat (unat w) :: 8 word) = w"
  by simp

lemma sint_small: "unat (w::8 word) < 128 \<Longrightarrow> sint w = int (unat w)"
  by (simp add: sint_int8)

lemma word_pos_nat8: "0 < (w::8 word) \<longleftrightarrow> 0 < unat w"
  by (simp add: word_less_nat_alt)

lemma dec_of_nat8: "0 < unat (w::8 word) \<Longrightarrow> w - 1 = of_nat (unat w - 1)"
proof -
  assume a: "0 < unat w"
  then have "w \<noteq> 0" by auto
  then have "unat (w - 1) = unat w - 1" by (rule unat_dec_int8)
  moreover have "unat (of_nat (unat w - 1) :: 8 word) = unat w - 1"
    using unat_lt_256 [of w] by (simp add: unat_of_nat8)
  ultimately show ?thesis by (simp add: word_unat_eq_iff)
qed

lemma inc_of_nat8: "unat (w::8 word) < 255 \<Longrightarrow> w + 1 = of_nat (unat w + 1)"
  by simp

lemma menuGetScreen_eq:
  "determineItemsPerScreen cap m \<noteq> 0 \<Longrightarrow>
   menuGetScreen cap m x = Some (x div determineItemsPerScreen cap m)"
  by (simp add: menuGetScreen_def)

lemma set_cursor_eqI:
  "x = of_nat c \<Longrightarrow> y = of_nat s \<Longrightarrow> m\<lparr>nCurrentItem := x, nScreen := y\<rparr> = set_cursor m c s"
  by (simp add: set_cursor_def)

lemma set_cursor_same: "set_cursor m (unat (nCurrentItem m)) (unat (nScreen m)) = m"
  by (simp add: set_cursor_def)

lemma set_cursor_screen_dec:
  assumes "0 < unat (nScreen m)"
  shows "m\<lparr>nScreen := nScreen m - 1\<rparr> = set_cursor m (unat (nCurrentItem m)) (unat (nScreen m) - 1)"
proof -
  have "m\<lparr>nScreen := nScreen m - 1\<rparr> = m\<lparr>nCurrentItem := nCurrentItem m, nScreen := nScreen m - 1\<rparr>"
    by simp
  also have "\<dots> = set_cursor m (unat (nCurrentItem m)) (unat (nScreen m) - 1)"
    using assms by (intro set_cursor_eqI dec_of_nat8) simp_all
  finally show ?thesis .
qed

lemma set_cursor_both_dec:
  assumes "0 < unat (nScreen m)"
  shows "m\<lparr>nCurrentItem := of_nat a, nScreen := nScreen m - 1\<rparr> = set_cursor m a (unat (nScreen m) - 1)"
  using assms by (intro set_cursor_eqI dec_of_nat8) simp_all

lemma set_cursor_item:
  "m\<lparr>nCurrentItem := of_nat a\<rparr> = set_cursor m a (unat (nScreen m))"
proof -
  have "m\<lparr>nCurrentItem := of_nat a\<rparr> = m\<lparr>nCurrentItem := of_nat a, nScreen := nScreen m\<rparr>"
    by simp
  also have "\<dots> = set_cursor m a (unat (nScreen m))"
    by (intro set_cursor_eqI) simp_all
  finally show ?thesis .
qed

lemma set_cursor_screen_inc:
  assumes "unat (nScreen m) < 255"
  shows "m\<lparr>nScreen := nScreen m + 1\<rparr> = set_cursor m (unat (nCurrentItem m)) (unat (nScreen m) + 1)"
proof -
  have "m\<lparr>nScreen := nScreen m + 1\<rparr> = m\<lparr>nCurrentItem := nCurrentItem m, nScreen := nScreen m + 1\<rparr>"
    by simp
  also have "\<dots> = set_cursor m (unat (nCurrentItem m)) (unat (nScreen m) + 1)"
    using assms by (intro set_cursor_eqI) simp_all
  finally show ?thesis .
qed

lemma set_cursor_both_inc:
  "m\<lparr>nCurrentItem := of_nat a, nScreen := nScreen m + 1\<rparr> = set_cursor m a (unat (nScreen m) + 1)"
  by (intro set_cursor_eqI) simp_all

lemma menuUp_unfold:
  assumes "menuUp_loop (pItems m) (nCurrentItem m - 1) 0 = Some (a, f)"
    and "determineItemsPerScreen cap m \<noteq> 0"
  shows "menuUp cap m =
    (if f \<noteq> 0 \<and> a div determineItemsPerScreen cap m = nScreen m
          \<and> nCurrentItem m div determineItemsPerScreen cap m = nScreen m
     then Some (1, m\<lparr>nCurrentItem := a\<rparr>)
     else if f \<noteq> 0 \<and> sint (a div determineItemsPerScreen cap m) = sint (nScreen m) - 1
          \<and> nScreen m \<le>s nCurrentItem m div determineItemsPerScreen cap m
     then Some (1, m\<lparr>nCurrentItem := a, nScreen := nScreen m - 1\<rparr>)
     else if 0 < nScreen m
     then Some (1, m\<lparr>nScreen := nScreen m - 1\<rparr>)
     else Some (0, m))"
  by (simp add: menuUp_def assms menuGetScreen_eq Let_def)

lemma menuUp_refine:
  assumes d: "determineItemsPerScreen cap m \<noteq> 0"
    and c: "unat (nCurrentItem m) < 128" "unat (nCurrentItem m) \<le> length (pItems m)"
    and s: "unat (nScreen m) < 128"
  shows "menuUp cap m =
    (case upN (unat (determineItemsPerScreen cap m)) (pItems m) (unat (nCurrentItem m))
            (unat (nScreen m)) of
       (chg, c', s') \<Rightarrow> Some (if chg then 1 else 0, set_cursor m c' s'))"
proof -
  let ?d = "determineItemsPerScreen cap m"
  let ?c = "unat (nCurrentItem m)"
  let ?s = "unat (nScreen m)"
  have loop: "menuUp_loop (pItems m) (nCurrentItem m - 1) 0 =
     Some (case prev_enabled (pItems m) ?c of None \<Rightarrow> (- 1, 0) | Some i \<Rightarrow> (of_nat i, 1))"
    using menuUp_loop_prev [of ?c "pItems m"] c by simp
  have pos: "0 < nScreen m \<longleftrightarrow> 0 < ?s" by (rule word_pos_nat8)
  have tail: "(if 0 < nScreen m then Some (1, m\<lparr>nScreen := nScreen m - 1\<rparr>) else Some (0, m)) =
      (if 0 < ?s then Some (1, set_cursor m ?c (?s - 1)) else Some (0, set_cursor m ?c ?s))"
  proof (cases "0 < ?s")
    case True
    with pos set_cursor_screen_dec [OF True] show ?thesis by simp
  next
    case False
    with pos set_cursor_same [of m] show ?thesis by (simp only: if_False)
  qed
  show ?thesis
  proof (cases "prev_enabled (pItems m) ?c")
    case None
    with loop have "menuUp_loop (pItems m) (nCurrentItem m - 1) 0 = Some (- 1, 0)" by simp
    from menuUp_unfold [OF this d]
    have "menuUp cap m =
      (if 0 < nScreen m then Some (1, m\<lparr>nScreen := nScreen m - 1\<rparr>) else Some (0, m))"
      by simp
    then show ?thesis unfolding tail by (simp add: upN_def None)
  next
    case (Some a)
    from prev_enabled_Some [OF Some] have a: "a < ?c" by simp
    with c have a128: "a < 128" by simp
    have ua: "unat (of_nat a :: 8 word) = a" using a128 by (simp add: unat_of_nat8)
    have as: "unat ((of_nat a :: 8 word) div ?d) = a div unat ?d"
      by (simp add: unat_div ua)
    have as128: "a div unat ?d < 128" by (rule le_less_trans [OF div_le_dividend a128])
    have cs: "unat (nCurrentItem m div ?d) = ?c div unat ?d" by (simp add: unat_div)
    have cs128: "?c div unat ?d < 128" by (rule le_less_trans [OF div_le_dividend c(1)])
    have e1: "((of_nat a :: 8 word) div ?d = nScreen m) \<longleftrightarrow> a div unat ?d = ?s"
      by (simp add: word_unat_eq_iff as)
    have e2: "(nCurrentItem m div ?d = nScreen m) \<longleftrightarrow> ?c div unat ?d = ?s"
      by (simp add: word_unat_eq_iff cs)
    have e3: "(sint ((of_nat a :: 8 word) div ?d) = sint (nScreen m) - 1) \<longleftrightarrow> a div unat ?d + 1 = ?s"
    proof -
      have "sint ((of_nat a :: 8 word) div ?d) = int (a div unat ?d)"
        using as128 by (simp add: sint_small as)
      moreover have "sint (nScreen m) = int ?s" using s by (simp add: sint_small)
      ultimately show ?thesis by (simp only:) linarith
    qed
    have e4: "(nScreen m \<le>s nCurrentItem m div ?d) \<longleftrightarrow> ?s \<le> ?c div unat ?d"
    proof -
      have "sint (nCurrentItem m div ?d) = int (?c div unat ?d)"
        using cs128 by (simp add: sint_small cs)
      moreover have "sint (nScreen m) = int ?s" using s by (simp add: sint_small)
      ultimately show ?thesis by (simp only: word_sle_eq) linarith
    qed
    from loop Some have "menuUp_loop (pItems m) (nCurrentItem m - 1) 0 = Some (of_nat a, 1)"
      by simp
    from menuUp_unfold [OF this d]
    have up: "menuUp cap m =
      (if a div unat ?d = ?s \<and> ?c div unat ?d = ?s
       then Some (1, m\<lparr>nCurrentItem := of_nat a\<rparr>)
       else if a div unat ?d + 1 = ?s \<and> ?s \<le> ?c div unat ?d
       then Some (1, m\<lparr>nCurrentItem := of_nat a, nScreen := nScreen m - 1\<rparr>)
       else if 0 < nScreen m
       then Some (1, m\<lparr>nScreen := nScreen m - 1\<rparr>)
       else Some (0, m))"
      unfolding e1 e2 e3 e4 by simp
    show ?thesis
    proof (cases "a div unat ?d = ?s \<and> ?c div unat ?d = ?s")
      case True
      then show ?thesis unfolding up by (simp add: upN_def Some set_cursor_item)
    next
      case n1: False
      show ?thesis
      proof (cases "a div unat ?d + 1 = ?s \<and> ?s \<le> ?c div unat ?d")
        case True
        then have "0 < ?s" by linarith
        from set_cursor_both_dec [OF this, of a] n1 True
        show ?thesis unfolding up by (simp add: upN_def Some)
      next
        case n2: False
        have "menuUp cap m =
          (if 0 < ?s then Some (1, set_cursor m ?c (?s - 1)) else Some (0, set_cursor m ?c ?s))"
          unfolding up using n1 n2 by (simp only: if_False tail)
        moreover have "upN (unat ?d) (pItems m) ?c ?s =
          (if 0 < ?s then (True, ?c, ?s - 1) else (False, ?c, ?s))"
          unfolding upN_def Some using n1 n2 by (simp only: option.case if_False)
        ultimately show ?thesis by simp
      qed
    qed
  qed
qed

lemma menuDown_unfold:
  assumes "menuDown_loop (pItems m) (nMenuItems m) (nCurrentItem m + 1) 0 = Some (a, f)"
    and "determineItemsPerScreen cap m \<noteq> 0"
  shows "menuDown cap m =
    (if f \<noteq> 0 \<and> a div determineItemsPerScreen cap m = nScreen m
          \<and> nCurrentItem m div determineItemsPerScreen cap m = nScreen m
     then Some (1, m\<lparr>nCurrentItem := a\<rparr>)
     else if f \<noteq> 0 \<and> uint (a div determineItemsPerScreen cap m) = uint (nScreen m) + 1
          \<and> nCurrentItem m div determineItemsPerScreen cap m \<le> nScreen m
     then Some (1, m\<lparr>nCurrentItem := a, nScreen := nScreen m + 1\<rparr>)
     else if nScreen m < (if 0 < nMenuItems m
                          then (nMenuItems m - 1) div determineItemsPerScreen cap m else 0)
     then Some (1, m\<lparr>nScreen := nScreen m + 1\<rparr>)
     else Some (0, m))"
  by (simp add: menuDown_def assms menuGetScreen_eq Let_def)

lemma menuDown_refine:
  assumes d: "determineItemsPerScreen cap m \<noteq> 0"
    and c: "unat (nCurrentItem m) < 255"
    and n: "unat (nMenuItems m) \<le> length (pItems m)"
  shows "menuDown cap m =
    (case downN (unat (determineItemsPerScreen cap m)) (pItems m) (unat (nMenuItems m))
            (unat (nCurrentItem m)) (unat (nScreen m)) of
       (chg, c', s') \<Rightarrow> Some (if chg then 1 else 0, set_cursor m c' s'))"
proof -
  let ?d = "determineItemsPerScreen cap m"
  let ?D = "unat (determineItemsPerScreen cap m)"
  let ?c = "unat (nCurrentItem m)"
  let ?s = "unat (nScreen m)"
  let ?n = "unat (nMenuItems m)"
  let ?last = "if 0 < ?n then (?n - 1) div ?D else 0"
  have c1: "unat (nCurrentItem m + 1) = Suc ?c" using unat_inc_int8 [OF c] by simp
  have loop: "menuDown_loop (pItems m) (nMenuItems m) (nCurrentItem m + 1) 0 =
     Some (case next_enabled (pItems m) ?n (Suc ?c) of
             None \<Rightarrow> (if nCurrentItem m + 1 < nMenuItems m then nMenuItems m
                       else nCurrentItem m + 1, 0)
           | Some i \<Rightarrow> (of_nat i, 1))"
    using menuDown_loop_next [OF n, of "nCurrentItem m + 1"] unfolding c1 .
  have last: "unat (if 0 < nMenuItems m then (nMenuItems m - 1) div ?d else 0) = ?last"
  proof (cases "0 < ?n")
    case True
    then have "nMenuItems m \<noteq> 0" by auto
    then have "unat (nMenuItems m - 1) = ?n - 1" by (rule unat_dec_int8)
    with True show ?thesis by (simp add: word_pos_nat8 unat_div)
  next
    case False
    then show ?thesis by (simp add: word_pos_nat8)
  qed
  have lt: "nScreen m < (if 0 < nMenuItems m then (nMenuItems m - 1) div ?d else 0)
            \<longleftrightarrow> ?s < ?last"
    by (simp only: word_less_nat_alt [where a = "nScreen m"] last)
  have last255: "?last \<le> 255"
  proof -
    have "(?n - 1) div ?D \<le> ?n - 1" by (rule div_le_dividend)
    also have "\<dots> \<le> ?n" by simp
    finally have "?last \<le> ?n" by simp
    with unat_lt_256 [of "nMenuItems m"] show ?thesis by simp
  qed
  have tail: "(if nScreen m < (if 0 < nMenuItems m then (nMenuItems m - 1) div ?d else 0)
               then Some (1, m\<lparr>nScreen := nScreen m + 1\<rparr>) else Some (0, m)) =
      (if ?s < ?last then Some (1, set_cursor m ?c (?s + 1)) else Some (0, set_cursor m ?c ?s))"
  proof (cases "?s < ?last")
    case True
    with last255 have "?s < 255" by simp
    from set_cursor_screen_inc [OF this] True lt show ?thesis by (simp only: if_True)
  next
    case False
    with lt set_cursor_same [of m] show ?thesis by (simp only: if_False)
  qed
  show ?thesis
  proof (cases "next_enabled (pItems m) ?n (Suc ?c)")
    case None
    with loop obtain a where "menuDown_loop (pItems m) (nMenuItems m) (nCurrentItem m + 1) 0 = Some (a, 0)"
      by simp
    from menuDown_unfold [OF this d]
    have "menuDown cap m =
      (if nScreen m < (if 0 < nMenuItems m then (nMenuItems m - 1) div ?d else 0)
       then Some (1, m\<lparr>nScreen := nScreen m + 1\<rparr>) else Some (0, m))"
      by simp
    then have "menuDown cap m =
      (if ?s < ?last then Some (1, set_cursor m ?c (?s + 1)) else Some (0, set_cursor m ?c ?s))"
      unfolding tail .
    moreover have "downN ?D (pItems m) ?n ?c ?s =
      (if ?s < ?last then (True, ?c, ?s + 1) else (False, ?c, ?s))"
      unfolding downN_def None by (simp only: option.case)
    ultimately show ?thesis by simp
  next
    case (Some b)
    from next_enabled_Some [OF Some] have b: "b < ?n" by simp
    with unat_lt_256 [of "nMenuItems m"] have b256: "b < 256" by simp
    have ub: "unat (of_nat b :: 8 word) = b" using b256 by (rule unat_of_nat8)
    have bs: "unat ((of_nat b :: 8 word) div ?d) = b div ?D"
      by (simp add: unat_div ub)
    have cs: "unat (nCurrentItem m div ?d) = ?c div ?D" by (simp add: unat_div)
    have e1: "((of_nat b :: 8 word) div ?d = nScreen m) \<longleftrightarrow> b div ?D = ?s"
      by (simp add: word_unat_eq_iff bs)
    have e2: "(nCurrentItem m div ?d = nScreen m) \<longleftrightarrow> ?c div ?D = ?s"
      by (simp add: word_unat_eq_iff cs)
    have e3: "(uint ((of_nat b :: 8 word) div ?d) = uint (nScreen m) + 1) \<longleftrightarrow> b div ?D = ?s + 1"
    proof -
      have "uint ((of_nat b :: 8 word) div ?d) = int (b div ?D)"
        unfolding bs [symmetric] by simp
      moreover have "uint (nScreen m) = int ?s" by simp
      ultimately show ?thesis by (simp only:) linarith
    qed
    have e4: "(nCurrentItem m div ?d \<le> nScreen m) \<longleftrightarrow> ?c div ?D \<le> ?s"
      by (simp add: word_le_nat_alt cs)
    from loop Some have "menuDown_loop (pItems m) (nMenuItems m) (nCurrentItem m + 1) 0 = Some (of_nat b, 1)"
      by simp
    from menuDown_unfold [OF this d]
    have down: "menuDown cap m =
      (if b div ?D = ?s \<and> ?c div ?D = ?s
       then Some (1, m\<lparr>nCurrentItem := of_nat b\<rparr>)
       else if b div ?D = ?s + 1 \<and> ?c div ?D \<le> ?s
       then Some (1, m\<lparr>nCurrentItem := of_nat b, nScreen := nScreen m + 1\<rparr>)
       else if nScreen m < (if 0 < nMenuItems m then (nMenuItems m - 1) div ?d else 0)
       then Some (1, m\<lparr>nScreen := nScreen m + 1\<rparr>)
       else Some (0, m))"
      unfolding e1 e2 e3 e4 by simp
    show ?thesis
    proof (cases "b div ?D = ?s \<and> ?c div ?D = ?s")
      case True
      then show ?thesis unfolding down by (simp add: downN_def Some set_cursor_item)
    next
      case n1: False
      show ?thesis
      proof (cases "b div ?D = ?s + 1 \<and> ?c div ?D \<le> ?s")
        case True
        with n1 set_cursor_both_inc [of m b]
        show ?thesis unfolding down by (simp add: downN_def Some)
      next
        case n2: False
        have "menuDown cap m =
          (if ?s < ?last then Some (1, set_cursor m ?c (?s + 1)) else Some (0, set_cursor m ?c ?s))"
          unfolding down using n1 n2 by (simp only: if_False tail)
        moreover have "downN ?D (pItems m) ?n ?c ?s =
          (if ?s < ?last then (True, ?c, ?s + 1) else (False, ?c, ?s))"
          unfolding downN_def Some using n1 n2 by (simp only: option.case if_False)
        ultimately show ?thesis by simp
      qed
    qed
  qed
qed

lemma upN_None:
  "prev_enabled items c = None \<Longrightarrow>
   upN d items c s = (if 0 < s then (True, c, s - 1) else (False, c, s))"
  by (simp add: upN_def)

lemma upN_Some:
  "prev_enabled items c = Some a \<Longrightarrow>
   upN d items c s =
     (if a div d = s \<and> c div d = s then (True, a, s)
      else if a div d + 1 = s \<and> s \<le> c div d then (True, a, s - 1)
      else if 0 < s then (True, c, s - 1) else (False, c, s))"
  by (simp add: upN_def)

lemma downN_None:
  "next_enabled items n (Suc c) = None \<Longrightarrow>
   downN d items n c s =
     (if s < (if 0 < n then (n - 1) div d else 0) then (True, c, s + 1) else (False, c, s))"
  by (simp add: downN_def)

lemma downN_Some:
  "next_enabled items n (Suc c) = Some b \<Longrightarrow>
   downN d items n c s =
     (if b div d = s \<and> c div d = s then (True, b, s)
      else if b div d = s + 1 \<and> c div d \<le> s then (True, b, s + 1)
      else if s < (if 0 < n then (n - 1) div d else 0) then (True, c, s + 1)
      else (False, c, s))"
  by (simp add: downN_def)

lemma upN_screen_only:
  assumes "c div d = s"
  shows "upN d items c (Suc s) = (True, c, s)"
proof (cases "prev_enabled items c")
  case None
  then show ?thesis by (simp add: upN_None)
next
  case (Some a)
  from prev_enabled_Some [OF Some] have "a \<le> c" by simp
  then have "a div d \<le> c div d" by (rule div_le_mono)
  with assms have "a div d \<le> s" by simp
  with assms show ?thesis by (simp add: upN_Some [OF Some])
qed

lemma downN_screen_only:
  assumes "c div d = Suc s" and "c < n"
  shows "downN d items n c s = (True, c, Suc s)"
proof -
  from assms(2) have "c \<le> n - 1" by simp
  then have "c div d \<le> (n - 1) div d" by (rule div_le_mono)
  with assms have last: "s < (if 0 < n then (n - 1) div d else 0)" by simp
  show ?thesis
  proof (cases "next_enabled items n (Suc c)")
    case None
    with last show ?thesis by (simp add: downN_None)
  next
    case (Some b)
    from next_enabled_Some [OF Some] have "c \<le> b" by simp
    then have "c div d \<le> b div d" by (rule div_le_mono)
    with assms have "Suc s \<le> b div d" by simp
    with assms last show ?thesis by (simp add: downN_Some [OF Some])
  qed
qed

lemma downN_upN:
  assumes c: "c < n"
    and en: "\<not> item_disabled (items ! c) \<or> (\<forall>i<n. item_disabled (items ! i))"
    and s: "c div d = s"
    and down: "downN d items n c s = (True, c1, s1)"
  shows "upN d items c1 s1 = (True, c, s)"
proof (cases "next_enabled items n (Suc c)")
  case None
  with down have "c1 = c \<and> s1 = Suc s"
    by (simp add: downN_None split: if_splits)
  with upN_screen_only [OF s] show ?thesis by simp
next
  case (Some b)
  from next_enabled_Some [OF Some]
  have b: "c < b" "b < n" "\<not> item_disabled (items ! b)"
    "\<forall>j. Suc c \<le> j \<and> j < b \<longrightarrow> item_disabled (items ! j)" by auto
  from b(2,3) en have enc: "\<not> item_disabled (items ! c)" by auto
  have prev: "prev_enabled items b = Some c"
    using b(1) enc b(4) by (intro prev_enabled_unique) auto
  show ?thesis
  proof (cases "b div d = s")
    case True
    with down s have "c1 = b \<and> s1 = s" by (simp add: downN_Some [OF Some])
    with True s show ?thesis by (simp add: upN_Some [OF prev])
  next
    case n1: False
    show ?thesis
    proof (cases "b div d = Suc s")
      case True
      with down s n1 have "c1 = b \<and> s1 = Suc s" by (simp add: downN_Some [OF Some])
      with True s show ?thesis by (simp add: upN_Some [OF prev])
    next
      case False
      with down s n1 have "c1 = c \<and> s1 = Suc s"
        by (simp add: downN_Some [OF Some] split: if_splits)
      with upN_screen_only [OF s] show ?thesis by simp
    qed
  qed
qed

lemma upN_downN:
  assumes c: "c < n"
    and en: "\<not> item_disabled (items ! c) \<or> (\<forall>i<n. item_disabled (items ! i))"
    and s: "c div d = s"
    and up: "upN d items c s = (True, c2, s2)"
  shows "downN d items n c2 s2 = (True, c, s)"
proof (cases "prev_enabled items c")
  case None
  with up obtain s' where "s = Suc s'" "c2 = c" "s2 = s'"
    by (cases s) (simp_all add: upN_None)
  with downN_screen_only [of c d s' n] s c show ?thesis by simp
next
  case (Some a)
  from prev_enabled_Some [OF Some]
  have a: "a < c" "\<not> item_disabled (items ! a)"
    "\<forall>j. a < j \<and> j < c \<longrightarrow> item_disabled (items ! j)" by auto
  from a(1,2) c en have enc: "\<not> item_disabled (items ! c)" by auto
  have nxt: "next_enabled items n (Suc a) = Some c"
    using a(1) c enc a(3) by (intro next_enabled_unique) auto
  show ?thesis
  proof (cases "a div d = s")
    case True
    with up s have "c2 = a \<and> s2 = s" by (simp add: upN_Some [OF Some])
    with True s show ?thesis by (simp add: downN_Some [OF nxt])
  next
    case n1: False
    show ?thesis
    proof (cases "Suc (a div d) = s")
      case True
      with up s n1 have "c2 = a \<and> s2 = a div d" by (auto simp add: upN_Some [OF Some])
      with True s show ?thesis by (auto simp add: downN_Some [OF nxt])
    next
      case False
      with up s n1 obtain s' where "s = Suc s'" "c2 = c" "s2 = s'"
        by (cases s) (simp_all add: upN_Some [OF Some])
      with downN_screen_only [of c d s' n] s c show ?thesis by simp
    qed
  qed
qed

lemma set_cursor_fields [simp]:
  "pItems (set_cursor m c s) = pItems m"
  "nMenuItems (set_cursor m c s) = nMenuItems m"
  "reservedAreas (set_cursor m c s) = reservedAreas m"
  "nSelectedItem (set_cursor m c s) = nSelectedItem m"
  "pParentMenu (set_cursor m c s) = pParentMenu m"
  "nCurrentItem (set_cursor m c s) = of_nat c"
  "nScreen (set_cursor m c s) = of_nat s"
  "determineItemsPerScreen cap (set_cursor m c s) = determineItemsPerScreen cap m"
  by (simp_all add: set_cursor_def)

lemma set_cursor_twice [simp]:
  "set_cursor (set_cursor m c s) c' s' = set_cursor m c' s'"
  by (simp add: set_cursor_def)

lemma upN_bounds:
  "upN d items c s = (chg, c', s') \<Longrightarrow> c' \<le> c \<and> s' \<le> s"
proof (cases "prev_enabled items c")
  case None
  assume "upN d items c s = (chg, c', s')"
  with None show ?thesis by (auto simp add: upN_None split: if_splits)
next
  case (Some a)
  assume "upN d items c s = (chg, c', s')"
  moreover from prev_enabled_Some [OF Some] have "a < c" by simp
  ultimately show ?thesis by (auto simp add: upN_Some [OF Some] split: if_splits)
qed

lemma downN_bounds:
  assumes "downN d items n c s = (chg, c', s')" and "c < n" and "s \<le> (n - 1) div d"
  shows "c' < n \<and> s' \<le> (n - 1) div d"
proof (cases "next_enabled items n (Suc c)")
  case None
  with assms show ?thesis by (auto simp add: downN_None split: if_splits)
next
  case (Some b)
  from next_enabled_Some [OF Some] have b: "b < n" by simp
  then have "b \<le> n - 1" by simp
  then have "b div d \<le> (n - 1) div d" by (rule div_le_mono)
  with assms b show ?thesis by (auto simp add: downN_Some [OF Some] split: if_splits)
qed

lemma screen_consistent_nat:
  assumes "determineItemsPerScreen cap m \<noteq> 0"
  shows "screen_consistent cap m \<longleftrightarrow>
     unat (nCurrentItem m) div unat (determineItemsPerScreen cap m) = unat (nScreen m)"
  using assms by (simp add: screen_consistent_def menuGetScreen_eq word_unat_eq_iff unat_div)

lemma current_enabled_nat:
  assumes "current_enabled m" and "length (pItems m) = n"
  shows "\<not> item_disabled (pItems m ! unat (nCurrentItem m)) \<or> (\<forall>i<n. item_disabled (pItems m ! i))"
  using assms by (auto simp add: current_enabled_def list_all_length)

lemma menuUp_step:
  assumes "determineItemsPerScreen cap m \<noteq> 0"
    and "c < 128" "c \<le> length (pItems m)" "s < 128"
    and "nCurrentItem m = of_nat c" "nScreen m = of_nat s"
    and "upN (unat (determineItemsPerScreen cap m)) (pItems m) c s = (chg, c', s')"
  shows "menuUp cap m = Some (if chg then 1 else 0, set_cursor m c' s')"
proof -
  have "unat (nCurrentItem m) = c" "unat (nScreen m) = s"
    using assms by (simp_all add: unat_of_nat8)
  with menuUp_refine [of cap m] assms show ?thesis by simp
qed

lemma menuDown_step:
  assumes "determineItemsPerScreen cap m \<noteq> 0"
    and "c < 255" "unat (nMenuItems m) \<le> length (pItems m)" "s < 256"
    and "nCurrentItem m = of_nat c" "nScreen m = of_nat s"
    and "downN (unat (determineItemsPerScreen cap m)) (pItems m) (unat (nMenuItems m)) c s
           = (chg, c', s')"
  shows "menuDown cap m = Some (if chg then 1 else 0, set_cursor m c' s')"
proof -
  have "unat (nCurrentItem m) = c" "unat (nScreen m) = s"
    using assms by (simp_all add: unat_of_nat8)
  with menuDown_refine [of cap m] assms show ?thesis by simp
qed

text \<open>
  Claim C5 (amended).  From a well-formed menu state that satisfies the data-model
  invariant (current item enabled or no item enabled, \<open>nScreen\<close> the screen of the
  current item, at most 128 items), if \<open>menuDown\<close> and \<open>menuUp\<close> both report a change,
  then \<open>menuDown\<close> followed by \<open>menuUp\<close>, and \<open>menuUp\<close> followed by \<open>menuDown\<close>,
  both report a change and restore the original state, in particular the pair
  (\<open>nCurrentItem\<close>, \<open>nScreen\<close>).
\<close>

theorem down_up_reversible:
  assumes wf: "menu_wf m" and inv: "data_model_inv cap m"
    and down: "menuDown cap m = Some (1, m1)" and up: "menuUp cap m = Some (1, m2)"
  shows "menuUp cap m1 = Some (1, m) \<and> menuDown cap m2 = Some (1, m)"
proof -
  let ?d = "determineItemsPerScreen cap m"
  let ?D = "unat ?d"
  let ?c = "unat (nCurrentItem m)"
  let ?s = "unat (nScreen m)"
  let ?n = "unat (nMenuItems m)"
  from inv have d0: "?d \<noteq> 0" and ce: "current_enabled m" and sc: "screen_consistent cap m"
    by (simp_all add: data_model_inv_def)
  from wf have len: "length (pItems m) = ?n" and n128: "?n \<le> 128" and c: "?c < max 1 ?n"
    by (simp_all add: menu_wf_def)
  from sc d0 have s: "?c div ?D = ?s" by (simp add: screen_consistent_nat)
  from c n128 have c128: "?c < 128" by auto
  from c len have cle: "?c \<le> length (pItems m)" by auto
  have "?c div ?D \<le> ?c" by (rule div_le_dividend)
  with s c128 have s128: "?s < 128" by simp
  note en = current_enabled_nat [OF ce len]
  have cur: "nCurrentItem m = of_nat ?c" "nScreen m = of_nat ?s" by simp_all
  have same: "set_cursor m ?c ?s = m" by (rule set_cursor_same)
  have n0: "?c < ?n" if "upN ?D (pItems m) ?c ?s = (True, c', s') \<or>
        downN ?D (pItems m) ?n ?c ?s = (True, c', s')" for c' s'
  proof (rule ccontr)
    assume "\<not> ?c < ?n"
    with c have z: "?n = 0" "?c = 0" by auto
    with s have "?s = 0" by simp
    with z that show False
      by (auto simp add: upN_None downN_None next_enabled_def)
  qed
  have part1: "menuUp cap m1 = Some (1, m)"
  proof -
    obtain chg c1 s1 where dn: "downN ?D (pItems m) ?n ?c ?s = (chg, c1, s1)"
      by (cases "downN ?D (pItems m) ?n ?c ?s") auto
    from menuDown_step [OF d0 _ _ _ cur dn] c128 len s128
    have "menuDown cap m = Some (if chg then 1 else 0, set_cursor m c1 s1)" by simp
    with down have chg: "chg" and m1: "m1 = set_cursor m c1 s1"
      by (auto split: if_splits)
    from dn chg have dnT: "downN ?D (pItems m) ?n ?c ?s = (True, c1, s1)" by simp
    with n0 have cn: "?c < ?n" by blast
    then have "?c \<le> ?n - 1" by simp
    then have "?c div ?D \<le> (?n - 1) div ?D" by (rule div_le_mono)
    with s have "?s \<le> (?n - 1) div ?D" by simp
    from downN_bounds [OF dn cn this] have b: "c1 < ?n" "s1 \<le> (?n - 1) div ?D" by simp_all
    have "(?n - 1) div ?D \<le> ?n - 1" by (rule div_le_dividend)
    with b(2) have "s1 \<le> ?n - 1" by (rule le_trans)
    with b(1) n128 cn have b128: "c1 < 128" "s1 < 128" by simp_all
    from downN_upN [OF cn en s dnT]
    have "upN ?D (pItems m) c1 s1 = (True, ?c, ?s)" .
    then have "upN (unat (determineItemsPerScreen cap m1)) (pItems m1) c1 s1 = (True, ?c, ?s)"
      by (simp add: m1)
    from menuUp_step [OF _ _ _ _ _ _ this] d0 b128 b(1) len
    have "menuUp cap m1 = Some (1, set_cursor m1 ?c ?s)" by (simp add: m1)
    then show ?thesis unfolding m1 set_cursor_twice same .
  qed
  have part2: "menuDown cap m2 = Some (1, m)"
  proof -
    obtain chg c2 s2 where u: "upN ?D (pItems m) ?c ?s = (chg, c2, s2)"
      by (cases "upN ?D (pItems m) ?c ?s") auto
    from menuUp_step [OF d0 c128 cle s128 cur u]
    have "menuUp cap m = Some (if chg then 1 else 0, set_cursor m c2 s2)" .
    with up have chg: "chg" and m2: "m2 = set_cursor m c2 s2"
      by (auto split: if_splits)
    from u chg have uT: "upN ?D (pItems m) ?c ?s = (True, c2, s2)" by simp
    with n0 have cn: "?c < ?n" by blast
    from upN_bounds [OF u] c128 s128 have b: "c2 < 128" "s2 < 128" by simp_all
    from upN_downN [OF cn en s uT]
    have "downN ?D (pItems m) ?n c2 s2 = (True, ?c, ?s)" .
    then have "downN (unat (determineItemsPerScreen cap m2)) (pItems m2) (unat (nMenuItems m2))
        c2 s2 = (True, ?c, ?s)"
      by (simp add: m2)
    from menuDown_step [OF _ _ _ _ _ _ this] d0 b len
    have "menuDown cap m2 = Some (1, set_cursor m2 ?c ?s)" by (simp add: m2)
    then show ?thesis unfolding m2 set_cursor_twice same .
  qed
  from part1 part2 show ?thesis by simp
qed

lemmas inv_eval = menu_wf_def data_model_inv_def current_enabled_def screen_consistent_def
  item_disabled_def menuGetScreen_def item_on_def item_off_def M_DISABLED_def

text \<open>
  Claim C5 as stated (every state from which both directions report a change) fails
  in a state the navigation itself reaches: \<open>menuUp\<close> from the last item of
  [enabled, disabled, enabled] with one item per screen shows the screen of the disabled
  item and leaves the current item; from there both directions report a change, but
  \<open>menuUp\<close> then \<open>menuDown\<close> ends on item 0, not on item 2.
\<close>

theorem down_up_reversible_counterexample:
  "data_model_inv 7 (example_menu [item_on, item_off, item_on] None 2 (- 1) 2 0x7E)
   \<and> menuUp 7 (example_menu [item_on, item_off, item_on] None 2 (- 1) 2 0x7E) =
       Some (1, example_menu [item_on, item_off, item_on] None 2 (- 1) 1 0x7E)
   \<and> menuDown 7 (example_menu [item_on, item_off, item_on] None 2 (- 1) 1 0x7E) =
       Some (1, example_menu [item_on, item_off, item_on] None 2 (- 1) 2 0x7E)
   \<and> menuUp 7 (example_menu [item_on, item_off, item_on] None 2 (- 1) 1 0x7E) =
       Some (1, example_menu [item_on, item_off, item_on] None 0 (- 1) 0 0x7E)
   \<and> menuDown 7 (example_menu [item_on, item_off, item_on] None 0 (- 1) 0 0x7E) =
       Some (1, example_menu [item_on, item_off, item_on] None 0 (- 1) 1 0x7E)
   \<and> (nCurrentItem (example_menu [item_on, item_off, item_on] None 0 (- 1) 1 0x7E),
       nScreen (example_menu [item_on, item_off, item_on] None 0 (- 1) 1 0x7E)) \<noteq>
      (nCurrentItem (example_menu [item_on, item_off, item_on] None 2 (- 1) 1 0x7E),
       nScreen (example_menu [item_on, item_off, item_on] None 2 (- 1) 1 0x7E))"
  by (simp add: nav_eval inv_eval)

theorem down_up_reversible_witness:
  "menu_wf (example_menu [item_on, item_on, item_on] None 1 (- 1) 0 0)
   \<and> data_model_inv 7 (example_menu [item_on, item_on, item_on] None 1 (- 1) 0 0)
   \<and> menuDown 7 (example_menu [item_on, item_on, item_on] None 1 (- 1) 0 0) =
       Some (1, example_menu [item_on, item_on, item_on] None 2 (- 1) 0 0)
   \<and> menuUp 7 (example_menu [item_on, item_on, item_on] None 1 (- 1) 0 0) =
       Some (1, example_menu [item_on, item_on, item_on] None 0 (- 1) 0 0)
   \<and> menuUp 7 (example_menu [item_on, item_on, item_on] None 2 (- 1) 0 0) =
       Some (1, example_menu [item_on, item_on, item_on] None 1 (- 1) 0 0)
   \<and> menuDown 7 (example_menu [item_on, item_on, item_on] None 0 (- 1) 0 0) =
       Some (1, example_menu [item_on, item_on, item_on] None 1 (- 1) 0 0)"
proof -
  let ?m = "example_menu [item_on, item_on, item_on] None 1 (- 1) 0 0"
  have wf: "menu_wf ?m" by (simp add: inv_eval)
  have inv: "data_model_inv 7 ?m" by (simp add: inv_eval)
  have down: "menuDown 7 ?m = Some (1, example_menu [item_on, item_on, item_on] None 2 (- 1) 0 0)"
    by (simp add: nav_eval)
  have up: "menuUp 7 ?m = Some (1, example_menu [item_on, item_on, item_on] None 0 (- 1) 0 0)"
    by (simp add: nav_eval)
  from down_up_reversible [OF wf inv down up] wf inv down up show ?thesis by simp
qed

lemma top_target_prev:
  assumes "prev_enabled items c = Some a"
  shows "top_target items a = top_target items c"
proof -
  from prev_enabled_Some [OF assms]
  have a: "a < c" "\<not> item_disabled (items ! a)" by simp_all
  show ?thesis
  proof (cases "next_enabled items a 0")
    case None
    then have "\<forall>j. 0 \<le> j \<and> j < a \<longrightarrow> item_disabled (items ! j)"
      by (simp add: next_enabled_None)
    with a have "next_enabled items c 0 = Some a"
      by (intro next_enabled_unique) auto
    with None show ?thesis by (simp add: top_target_def)
  next
    case (Some i)
    from next_enabled_Some [OF Some] a(1) have "next_enabled items c 0 = Some i"
      by (intro next_enabled_unique) auto
    with Some show ?thesis by (simp add: top_target_def)
  qed
qed

lemma top_target_none:
  assumes "prev_enabled items c = None"
  shows "top_target items c = c"
proof -
  from assms have "\<forall>j<c. item_disabled (items ! j)" by (simp add: prev_enabled_None)
  then have "next_enabled items c 0 = None" by (simp add: next_enabled_None)
  then show ?thesis by (simp add: top_target_def)
qed

lemma upN_top_inv:
  assumes inv: "top_inv d items c s" and up: "upN d items c s = (chg, c', s')"
  shows "(chg \<longrightarrow> top_inv d items c' s' \<and> c' + s' < c + s
                  \<and> top_target items c' = top_target items c)
       \<and> (\<not> chg \<longrightarrow> s = 0 \<and> c' = c \<and> s' = 0 \<and> top_target items c = c)"
proof (cases "prev_enabled items c")
  case None
  have no: "a < c \<Longrightarrow> item_disabled (items ! a)" for a
    using None by (simp add: prev_enabled_None)
  show ?thesis
  proof (cases "0 < s")
    case True
    with up None have r: "chg" "c' = c" "s' = s - 1" by (simp_all add: upN_None)
    have "top_inv d items c (s - 1)" using no by (auto simp add: top_inv_def)
    with r True show ?thesis by simp
  next
    case False
    with up None have "\<not> chg" "c' = c" "s' = s" by (simp_all add: upN_None)
    with False top_target_none [OF None] show ?thesis by simp
  qed
next
  case (Some a)
  from prev_enabled_Some [OF Some]
  have a: "a < c" "\<not> item_disabled (items ! a)"
    "\<forall>j. a < j \<and> j < c \<longrightarrow> item_disabled (items ! j)" by auto
  from inv have far: "s < c div d \<Longrightarrow> a div d < s"
    using a by (auto simp add: top_inv_def)
  have ac: "a div d \<le> c div d" using a(1) by (intro div_le_mono) simp
  have below: "x div d \<le> a div d" if "x < c" "\<not> item_disabled (items ! x)" for x
  proof -
    from that a(3) have "x \<le> a" by (metis not_le_imp_less)
    then show ?thesis by (rule div_le_mono)
  qed
  note tt = top_target_prev [OF Some]
  show ?thesis
  proof (cases "a div d = s \<and> c div d = s")
    case True
    with up have r: "chg" "c' = a" "s' = s" by (simp_all add: upN_Some [OF Some])
    have "top_inv d items a s" using True by (simp add: top_inv_def)
    with r a(1) tt show ?thesis by simp
  next
    case n1: False
    show ?thesis
    proof (cases "a div d + 1 = s \<and> s \<le> c div d")
      case True
      with up n1 have r: "chg" "c' = a" "s' = s - 1"
        by (auto simp add: upN_Some [OF Some] split: if_splits)
      have "top_inv d items a (s - 1)" using True by (auto simp add: top_inv_def)
      with r a(1) tt True show ?thesis by auto
    next
      case n2: False
      have lt: "a div d + 1 < s" if "s \<le> c div d"
      proof (cases "s < c div d")
        case True
        from far [OF this] n2 that show ?thesis by auto
      next
        case False
        with that have "s = c div d" by simp
        with ac n1 n2 show ?thesis by auto
      qed
      have pos: "0 < s"
      proof (cases "s \<le> c div d")
        case True
        from lt [OF this] show ?thesis by simp
      next
        case False
        then show ?thesis by simp
      qed
      with up n1 n2 have r: "chg" "c' = c" "s' = s - 1"
        by (auto simp add: upN_Some [OF Some] split: if_splits)
      have "top_inv d items c (s - 1)"
        unfolding top_inv_def
      proof (intro conjI impI allI)
        fix x assume x: "s - 1 < c div d" "x < c" "\<not> item_disabled (items ! x)"
        from x(1) pos have "s \<le> c div d" by simp
        from below [OF x(2,3)] lt [OF this] show "x div d < s - 1" by simp
      qed
      with r pos show ?thesis by simp
    qed
  qed
qed

lemma menuPositionTop_result:
  assumes "determineItemsPerScreen cap m \<noteq> 0"
    and "c < 128" "c \<le> length (pItems m)" "s < 128"
    and "nCurrentItem m = of_nat c" "nScreen m = of_nat s"
    and "top_inv (unat (determineItemsPerScreen cap m)) (pItems m) c s"
  shows "menuPositionTop cap m = Some (set_cursor m (top_target (pItems m) c) 0)"
  using assms
proof (induction "c + s" arbitrary: c s m rule: less_induct)
  case less
  let ?D = "unat (determineItemsPerScreen cap m)"
  obtain chg c' s' where u: "upN ?D (pItems m) c s = (chg, c', s')"
    by (cases "upN ?D (pItems m) c s") auto
  from menuUp_step [OF less.prems(1-6) u]
  have up: "menuUp cap m = Some (if chg then 1 else 0, set_cursor m c' s')" .
  note step = upN_top_inv [OF less.prems(7) u]
  from upN_bounds [OF u] have b: "c' \<le> c" "s' \<le> s" by simp_all
  show ?case
  proof (cases chg)
    case True
    let ?m' = "set_cursor m c' s'"
    from True step have i: "top_inv ?D (pItems m) c' s'" "c' + s' < c + s"
      "top_target (pItems m) c' = top_target (pItems m) c" by simp_all
    have "menuPositionTop cap ?m' = Some (set_cursor ?m' (top_target (pItems ?m') c') 0)"
    proof (rule less.hyps [OF i(2)])
      show "determineItemsPerScreen cap ?m' \<noteq> 0" using less.prems(1) by simp
      show "c' < 128" using b less.prems(2) by simp
      show "c' \<le> length (pItems ?m')" using b less.prems(3) by simp
      show "s' < 128" using b less.prems(4) by simp
      show "nCurrentItem ?m' = of_nat c'" by simp
      show "nScreen ?m' = of_nat s'" by simp
      show "top_inv (unat (determineItemsPerScreen cap ?m')) (pItems ?m') c' s'"
        using i(1) by simp
    qed
    then have "menuPositionTop cap ?m' = Some (set_cursor m (top_target (pItems m) c) 0)"
      using i(3) by simp
    with up True show ?thesis by (subst menuPositionTop.simps) simp
  next
    case False
    with step have e: "s = 0" "c' = c" "s' = 0" "top_target (pItems m) c = c" by simp_all
    from up False have "menuPositionTop cap m = Some (set_cursor m c' s')"
      by (subst menuPositionTop.simps) simp
    with e show ?thesis by simp
  qed
qed

lemma top_target_lowest:
  assumes "c < max 1 n"
    and "\<not> item_disabled (items ! c) \<or> (\<forall>i<n. item_disabled (items ! i))"
  shows "top_target items c = (case next_enabled items n 0 of Some i \<Rightarrow> i | None \<Rightarrow> c)"
proof (cases "next_enabled items n 0")
  case None
  then have "\<forall>j<n. item_disabled (items ! j)" by (simp add: next_enabled_None)
  with assms(1) have "\<forall>j<c. item_disabled (items ! j)" by auto
  then have "next_enabled items c 0 = None" by (simp add: next_enabled_None)
  with None show ?thesis by (simp add: top_target_def)
next
  case (Some i)
  from next_enabled_Some [OF Some]
  have i: "i < n" "\<not> item_disabled (items ! i)" "\<forall>j<i. item_disabled (items ! j)" by auto
  with assms have enc: "\<not> item_disabled (items ! c)" and cn: "c < n" by auto
  from i(3) enc have ic: "i \<le> c" by (metis not_le_imp_less)
  show ?thesis
  proof (cases "i = c")
    case True
    with i(3) have "next_enabled items c 0 = None" by (simp add: next_enabled_None)
    with Some True show ?thesis by (simp add: top_target_def)
  next
    case False
    with ic i have "next_enabled items c 0 = Some i"
      by (intro next_enabled_unique) auto
    with Some show ?thesis by (simp add: top_target_def)
  qed
qed

lemma screen_consistent_not_skipping:
  "determineItemsPerScreen cap m \<noteq> 0 \<Longrightarrow> screen_consistent cap m \<Longrightarrow>
   screen_not_skipping cap m"
  by (simp add: screen_consistent_nat screen_not_skipping_def)

lemma screen_consistent_128:
  assumes "determineItemsPerScreen cap m \<noteq> 0" "screen_consistent cap m" "menu_wf m"
  shows "unat (nScreen m) < 128"
proof -
  from assms have "unat (nCurrentItem m) div unat (determineItemsPerScreen cap m) = unat (nScreen m)"
    by (simp add: screen_consistent_nat)
  moreover have "unat (nCurrentItem m) div unat (determineItemsPerScreen cap m) \<le> unat (nCurrentItem m)"
    by (rule div_le_dividend)
  moreover from assms(3) have "unat (nCurrentItem m) < 128" by (auto simp add: menu_wf_def)
  ultimately show ?thesis by simp
qed

lemma menuPositionTop_top:
  assumes wf: "menu_wf m" and d0: "determineItemsPerScreen cap m \<noteq> 0"
    and ce: "current_enabled m" and s128: "unat (nScreen m) < 128"
    and ns: "screen_not_skipping cap m"
  shows "menuPositionTop cap m =
     Some (m\<lparr>nCurrentItem :=
               (case find (\<lambda>i. \<not> item_disabled (pItems m ! i)) [0..<length (pItems m)] of
                  Some i \<Rightarrow> of_nat i
                | None \<Rightarrow> nCurrentItem m),
             nScreen := 0\<rparr>)"
proof -
  let ?d = "determineItemsPerScreen cap m"
  let ?D = "unat ?d"
  let ?c = "unat (nCurrentItem m)"
  let ?s = "unat (nScreen m)"
  let ?n = "unat (nMenuItems m)"
  from wf have len: "length (pItems m) = ?n" and n128: "?n \<le> 128" and c: "?c < max 1 ?n"
    by (simp_all add: menu_wf_def)
  from c n128 have c128: "?c < 128" by auto
  from c len have cle: "?c \<le> length (pItems m)" by auto
  note en = current_enabled_nat [OF ce len]
  have ti: "top_inv ?D (pItems m) ?c ?s" using ns by (simp add: top_inv_def screen_not_skipping_def)
  let ?t = "top_target (pItems m) ?c"
  from menuPositionTop_result [OF d0 c128 cle s128 _ _ ti]
  have r: "menuPositionTop cap m = Some (set_cursor m ?t 0)" by simp
  have t: "?t = (case next_enabled (pItems m) ?n 0 of Some i \<Rightarrow> i | None \<Rightarrow> ?c)"
    using c en by (rule top_target_lowest)
  have "(of_nat ?t :: 8 word) =
      (case find (\<lambda>i. \<not> item_disabled (pItems m ! i)) [0..<length (pItems m)] of
            Some i \<Rightarrow> of_nat i
          | None \<Rightarrow> nCurrentItem m)"
    unfolding len by (simp add: t next_enabled_def split: option.splits)
  then have "set_cursor m ?t 0 =
      m\<lparr>nCurrentItem :=
               (case find (\<lambda>i. \<not> item_disabled (pItems m ! i)) [0..<length (pItems m)] of
                  Some i \<Rightarrow> of_nat i
                | None \<Rightarrow> nCurrentItem m),
             nScreen := 0\<rparr>"
    by (simp add: set_cursor_def)
  with r show ?thesis by simp
qed

text \<open>
  Claim C4 (amended).  On a well-formed menu (at most 128 items, valid current index,
  \<open>nScreen\<close> below 128, \<open>itemsPerScreen\<close> nonzero) whose current item is enabled (or
  which has no enabled item) and whose \<open>nScreen\<close> is not before the screen of the
  current item, unless every enabled item before the current one lies on a screen
  before \<open>nScreen\<close>, \<open>menuPositionTop\<close> returns, with \<open>nScreen = 0\<close> and the current
  item the lowest index whose item is enabled; when no item is enabled the current item
  is unchanged.  No other field changes.
\<close>

theorem menuPositionTop_reaches_top:
  assumes "menu_wf m" and "determineItemsPerScreen cap m \<noteq> 0"
    and "current_enabled m" and "unat (nScreen m) < 128"
    and "screen_not_skipping cap m"
  shows "\<exists>m'. menuPositionTop cap m = Some m'
     \<and> nScreen m' = 0
     \<and> nCurrentItem m' =
         (case find (\<lambda>i. \<not> item_disabled (pItems m ! i)) [0..<length (pItems m)] of
            Some i \<Rightarrow> of_nat i
          | None \<Rightarrow> nCurrentItem m)
     \<and> m' = m\<lparr>nCurrentItem := nCurrentItem m', nScreen := 0\<rparr>"
  using menuPositionTop_top [OF assms] by simp

text \<open>
  Claim C4 as stated (every menu with a nonzero \<open>itemsPerScreen\<close>) fails when the
  current item is itself disabled: \<open>menuPositionTop\<close> only moves towards index 0, so
  with items [disabled, enabled] and the cursor on item 0 it stays on item 0 although
  the lowest enabled index is 1.
\<close>

theorem menuPositionTop_reaches_top_counterexample:
  "determineItemsPerScreen 7 (example_menu [item_off, item_on] None 0 (- 1) 0 0) \<noteq> 0
   \<and> menuPositionTop 7 (example_menu [item_off, item_on] None 0 (- 1) 0 0) =
       Some (example_menu [item_off, item_on] None 0 (- 1) 0 0)
   \<and> \<not> item_disabled ([item_off, item_on] ! 1)
   \<and> item_disabled ([item_off, item_on] ! 0)
   \<and> nCurrentItem (example_menu [item_off, item_on] None 0 (- 1) 0 0) = 0"
  by (simp add: nav_eval inv_eval)

theorem menuPositionTop_reaches_top_witness:
  "menuPositionTop 7 (example_menu [item_off, item_on, item_off, item_on] None 3 (- 1) 0 0) =
     Some (example_menu [item_off, item_on, item_off, item_on] None 1 (- 1) 0 0)
   \<and> menuPositionTop 7 (example_menu [item_on, item_off, item_on] None 2 (- 1) 1 0x7E) =
     Some (example_menu [item_on, item_off, item_on] None 0 (- 1) 0 0x7E)"
proof -
  let ?m = "example_menu [item_off, item_on, item_off, item_on] None 3 (- 1) 0 0"
  let ?k = "example_menu [item_on, item_off, item_on] None 2 (- 1) 1 0x7E"
  have f: "find (\<lambda>i. \<not> item_disabled (pItems ?m ! i)) [0..<length (pItems ?m)] = Some 1"
    "find (\<lambda>i. \<not> item_disabled (pItems ?k ! i)) [0..<length (pItems ?k)] = Some 0"
    by (simp_all add: upt_rec inv_eval)
  have m: "menu_wf ?m" "determineItemsPerScreen 7 ?m \<noteq> 0" "current_enabled ?m"
    "unat (nScreen ?m) < 128" "screen_not_skipping 7 ?m"
    by (simp_all add: inv_eval screen_not_skipping_def)
  have k: "menu_wf ?k" "determineItemsPerScreen 7 ?k \<noteq> 0" "current_enabled ?k"
    "unat (nScreen ?k) < 128" "screen_not_skipping 7 ?k"
    by (auto simp add: inv_eval screen_not_skipping_def dest!: less_2_cases)
  from menuPositionTop_reaches_top [OF m] f(1)
  have 1: "menuPositionTop 7 ?m =
     Some (example_menu [item_off, item_on, item_off, item_on] None 1 (- 1) 0 0)"
    by (auto simp add: example_menu_def)
  from menuPositionTop_reaches_top [OF k] f(2)
  have 2: "menuPositionTop 7 ?k = Some (example_menu [item_on, item_off, item_on] None 0 (- 1) 0 0x7E)"
    by (auto simp add: example_menu_def)
  from 1 2 show ?thesis by simp
qed

lemma upN_cases:
  assumes "c div d = s" and "upN d items c s = (chg, c', s')"
  shows "(c' = c \<and> s' = s)
       \<or> (prev_enabled items c = Some c' \<and> c' div d = s')
       \<or> (c' = c \<and> 0 < s \<and> s' = s - 1)"
proof (cases "prev_enabled items c")
  case None
  with assms show ?thesis by (auto simp add: upN_None split: if_splits)
next
  case (Some a)
  with assms show ?thesis by (auto simp add: upN_Some [OF Some] split: if_splits)
qed

lemma downN_cases:
  assumes "c div d = s" and "downN d items n c s = (chg, c', s')"
  shows "(c' = c \<and> s' = s)
       \<or> (next_enabled items n (Suc c) = Some c' \<and> c' div d = s')
       \<or> (c' = c \<and> s < (if 0 < n then (n - 1) div d else 0) \<and> s' = s + 1)"
proof (cases "next_enabled items n (Suc c)")
  case None
  with assms show ?thesis by (auto simp add: downN_None split: if_splits)
next
  case (Some b)
  with assms show ?thesis by (auto simp add: downN_Some [OF Some] split: if_splits)
qed

lemma menu_wf_set_cursor:
  "menu_wf m \<Longrightarrow> c' < max 1 (unat (nMenuItems m)) \<Longrightarrow> menu_wf (set_cursor m c' s')"
  by (auto simp add: menu_wf_def unat_of_nat8)

lemma current_enabled_set_cursor:
  assumes "c' < length (pItems m)" "c' < 256" "\<not> item_disabled (pItems m ! c')"
  shows "current_enabled (set_cursor m c' s')"
  using assms by (simp add: current_enabled_def unat_of_nat8)

lemma screen_consistent_set_cursor:
  assumes "determineItemsPerScreen cap m \<noteq> 0" "c' < 256" "s' < 256"
    and "c' div unat (determineItemsPerScreen cap m) = s'"
  shows "screen_consistent cap (set_cursor m c' s')"
  using assms by (simp add: screen_consistent_nat unat_of_nat8)

lemma upN_blocked:
  assumes s: "c div d = s"
    and bl: "\<forall>a<c. s \<le> a div d + 1 \<longrightarrow> item_disabled (items ! a)"
  shows "upN d items c s = (if 0 < s then (True, c, s - 1) else (False, c, s))"
proof (cases "prev_enabled items c")
  case None
  then show ?thesis by (simp add: upN_def)
next
  case (Some a)
  from prev_enabled_Some [OF Some] have a: "a < c" "\<not> item_disabled (items ! a)" by simp_all
  with bl have "\<not> s \<le> a div d + 1" by blast
  then have "a div d + 1 < s" by simp
  then have "a div d \<noteq> s" "a div d + 1 \<noteq> s" "0 < s" by simp_all
  with Some show ?thesis by (simp add: upN_def)
qed

lemma upN_free:
  assumes s: "c div d = s"
    and fr: "\<not> (\<forall>a<c. s \<le> a div d + 1 \<longrightarrow> item_disabled (items ! a))"
  shows "\<exists>a. prev_enabled items c = Some a \<and> upN d items c s = (True, a, a div d)"
proof -
  from fr obtain a' where a': "a' < c" "s \<le> a' div d + 1" "\<not> item_disabled (items ! a')"
    by blast
  from a'(1,3) have "prev_enabled items c \<noteq> None" by (auto simp add: prev_enabled_None)
  then obtain a where p: "prev_enabled items c = Some a" by blast
  from prev_enabled_Some [OF p]
  have a: "a < c" "\<forall>j. a < j \<and> j < c \<longrightarrow> item_disabled (items ! j)" by simp_all
  from a(2) a'(1,3) have "a' \<le> a" by (meson not_le_imp_less)
  then have "a' div d \<le> a div d" by (rule div_le_mono)
  with a'(2) have lo: "s \<le> a div d + 1" by simp
  from a(1) have "a div d \<le> c div d" by (intro div_le_mono) simp
  with s have hi: "a div d \<le> s" by simp
  from lo hi consider "a div d = s" | "a div d + 1 = s" by linarith
  then have "upN d items c s = (True, a, a div d)"
  proof cases
    case 1
    with p s show ?thesis by (simp add: upN_def)
  next
    case 2
    then have "a div d \<noteq> s" "a div d = s - 1" by simp_all
    with p s 2 show ?thesis by (simp add: upN_def)
  qed
  with p show ?thesis by blast
qed

lemma downN_blocked:
  assumes s: "c div d = s"
    and bl: "\<forall>b<n. c < b \<and> b div d \<le> s + 1 \<longrightarrow> item_disabled (items ! b)"
  shows "downN d items n c s =
     (if s < (n - 1) div d then (True, c, s + 1) else (False, c, s))"
proof -
  have l: "(if 0 < n then (n - 1) div d else 0) = (n - 1) div d" by simp
  show ?thesis
  proof (cases "next_enabled items n (Suc c)")
    case None
    then show ?thesis by (simp add: downN_def l)
  next
    case (Some b)
    from next_enabled_Some [OF Some]
    have b: "Suc c \<le> b" "b < n" "\<not> item_disabled (items ! b)" by simp_all
    with bl have "\<not> b div d \<le> s + 1" by (metis Suc_le_lessD)
    then have "b div d \<noteq> s" "b div d \<noteq> s + 1" by simp_all
    with Some show ?thesis by (simp add: downN_def l)
  qed
qed

lemma downN_free:
  assumes s: "c div d = s"
    and fr: "\<not> (\<forall>b<n. c < b \<and> b div d \<le> s + 1 \<longrightarrow> item_disabled (items ! b))"
  shows "\<exists>b. next_enabled items n (Suc c) = Some b \<and> downN d items n c s = (True, b, b div d)"
proof -
  from fr obtain b' where b': "b' < n" "c < b'" "b' div d \<le> s + 1"
    "\<not> item_disabled (items ! b')"
    by blast
  from b'(2) have "Suc c \<le> b'" by simp
  with b'(1,4) have "next_enabled items n (Suc c) \<noteq> None"
    unfolding next_enabled_None by blast
  then obtain b where p: "next_enabled items n (Suc c) = Some b" by blast
  from next_enabled_Some [OF p]
  have b: "Suc c \<le> b" "\<forall>j. Suc c \<le> j \<and> j < b \<longrightarrow> item_disabled (items ! j)" by simp_all
  from b(2) b'(2,4) have "b \<le> b'" by (meson Suc_leI not_le_imp_less)
  then have "b div d \<le> b' div d" by (rule div_le_mono)
  with b'(3) have hi: "b div d \<le> s + 1" by simp
  from b(1) have "c div d \<le> b div d" by (intro div_le_mono) simp
  with s have lo: "s \<le> b div d" by simp
  from lo hi consider "b div d = s" | "b div d = s + 1" by linarith
  then have "downN d items n c s = (True, b, b div d)"
  proof cases
    case 1
    with p s show ?thesis by (simp add: downN_def)
  next
    case 2
    then have "b div d \<noteq> s" by simp
    with p s 2 show ?thesis by (simp add: downN_def)
  qed
  with p show ?thesis by blast
qed

lemma menuUp_invariant:
  assumes wf: "menu_wf m" and inv: "data_model_inv cap m"
  shows "\<exists>r m'. menuUp cap m = Some (r, m') \<and> menu_wf m'
     \<and> determineItemsPerScreen cap m' \<noteq> 0 \<and> current_enabled m'
     \<and> (if up_blocked cap m \<and> 0 < nScreen m
         then m' = m\<lparr>nScreen := nScreen m - 1\<rparr> else screen_consistent cap m')"
proof -
  let ?d = "determineItemsPerScreen cap m"
  let ?D = "unat ?d"
  let ?c = "unat (nCurrentItem m)"
  let ?s = "unat (nScreen m)"
  let ?n = "unat (nMenuItems m)"
  from inv have d0: "?d \<noteq> 0" and ce: "current_enabled m" and sc: "screen_consistent cap m"
    by (simp_all add: data_model_inv_def)
  from wf have len: "length (pItems m) = ?n" and n128: "?n \<le> 128" and c: "?c < max 1 ?n"
    by (simp_all add: menu_wf_def)
  from sc d0 have s: "?c div ?D = ?s" by (simp add: screen_consistent_nat)
  from c n128 have c128: "?c < 128" by auto
  from c len have cle: "?c \<le> length (pItems m)" by auto
  note s128 = screen_consistent_128 [OF d0 sc wf]
  have cur: "nCurrentItem m = of_nat ?c" "nScreen m = of_nat ?s" by simp_all
  have pos: "0 < nScreen m \<longleftrightarrow> 0 < ?s" by (simp add: word_less_nat_alt)
  obtain chg c' s' where u: "upN ?D (pItems m) ?c ?s = (chg, c', s')"
    by (cases "upN ?D (pItems m) ?c ?s") auto
  from menuUp_step [OF d0 c128 cle s128 cur u]
  have up: "menuUp cap m = Some (if chg then 1 else 0, set_cursor m c' s')" .
  let ?m' = "set_cursor m c' s'"
  from upN_bounds [OF u] have b: "c' \<le> ?c" "s' \<le> ?s" by simp_all
  from b c have wf': "menu_wf ?m'" by (intro menu_wf_set_cursor wf) simp
  have d': "determineItemsPerScreen cap ?m' \<noteq> 0" using d0 by simp
  have "current_enabled ?m' \<and> (if up_blocked cap m \<and> 0 < nScreen m
         then ?m' = m\<lparr>nScreen := nScreen m - 1\<rparr> else screen_consistent cap ?m')"
  proof (cases "up_blocked cap m")
    case True
    then have "\<forall>a<?c. ?s \<le> a div ?D + 1 \<longrightarrow> item_disabled (pItems m ! a)"
      by (simp add: up_blocked_def)
    from upN_blocked [OF s this] u
    have r: "(chg, c', s') = (if 0 < ?s then (True, ?c, ?s - 1) else (False, ?c, ?s))" by simp
    show ?thesis
    proof (cases "0 < ?s")
      case False
      with r have "c' = ?c" "s' = ?s" by simp_all
      then have "?m' = m" by (simp only: set_cursor_same)
      with ce sc False pos show ?thesis by simp
    next
      case s0: True
      with r have "c' = ?c" "s' = ?s - 1" by simp_all
      with s0 have m': "?m' = m\<lparr>nScreen := nScreen m - 1\<rparr>"
        by (simp add: set_cursor_screen_dec)
      have "current_enabled (m\<lparr>nScreen := nScreen m - 1\<rparr>)"
        using ce by (simp add: current_enabled_def)
      with True s0 pos show ?thesis unfolding m' by simp
    qed
  next
    case False
    then have "\<not> (\<forall>a<?c. ?s \<le> a div ?D + 1 \<longrightarrow> item_disabled (pItems m ! a))"
      by (simp add: up_blocked_def)
    from upN_free [OF s this] u obtain a where
      p: "prev_enabled (pItems m) ?c = Some a" and r: "c' = a" "s' = a div ?D"
      by auto
    from prev_enabled_Some [OF p] have a: "a < ?c" "\<not> item_disabled (pItems m ! a)" by simp_all
    from a(1) cle c128 have l: "a < length (pItems m)" "a < 256" by simp_all
    have s256: "a div ?D < 256" by (rule le_less_trans [OF div_le_dividend l(2)])
    have "current_enabled (set_cursor m a (a div ?D))"
      using l a(2) by (rule current_enabled_set_cursor)
    moreover have "screen_consistent cap (set_cursor m a (a div ?D))"
      using d0 l(2) s256 refl by (rule screen_consistent_set_cursor)
    ultimately show ?thesis using False r by simp
  qed
  with up wf' d' show ?thesis by blast
qed

lemma menuDown_invariant:
  assumes wf: "menu_wf m" and inv: "data_model_inv cap m"
  shows "\<exists>r m'. menuDown cap m = Some (r, m') \<and> menu_wf m'
     \<and> determineItemsPerScreen cap m' \<noteq> 0 \<and> current_enabled m'
     \<and> (if down_blocked cap m \<and> unat (nScreen m) < last_screen cap m
         then m' = m\<lparr>nScreen := nScreen m + 1\<rparr> else screen_consistent cap m')"
proof -
  let ?d = "determineItemsPerScreen cap m"
  let ?D = "unat ?d"
  let ?c = "unat (nCurrentItem m)"
  let ?s = "unat (nScreen m)"
  let ?n = "unat (nMenuItems m)"
  from inv have d0: "?d \<noteq> 0" and ce: "current_enabled m" and sc: "screen_consistent cap m"
    by (simp_all add: data_model_inv_def)
  from wf have len: "length (pItems m) = ?n" and n128: "?n \<le> 128" and c: "?c < max 1 ?n"
    by (simp_all add: menu_wf_def)
  from sc d0 have s: "?c div ?D = ?s" by (simp add: screen_consistent_nat)
  from c n128 have c128: "?c < 128" by auto
  note s128 = screen_consistent_128 [OF d0 sc wf]
  have cur: "nCurrentItem m = of_nat ?c" "nScreen m = of_nat ?s" by simp_all
  obtain chg c' s' where dn: "downN ?D (pItems m) ?n ?c ?s = (chg, c', s')"
    by (cases "downN ?D (pItems m) ?n ?c ?s") auto
  from menuDown_step [OF d0 _ _ _ cur dn] c128 len s128
  have down: "menuDown cap m = Some (if chg then 1 else 0, set_cursor m c' s')" by simp
  let ?m' = "set_cursor m c' s'"
  have d': "determineItemsPerScreen cap ?m' \<noteq> 0" using d0 by simp
  have "menu_wf ?m' \<and> current_enabled ?m'
     \<and> (if down_blocked cap m \<and> ?s < last_screen cap m
         then ?m' = m\<lparr>nScreen := nScreen m + 1\<rparr> else screen_consistent cap ?m')"
  proof (cases "down_blocked cap m")
    case True
    then have "\<forall>b<?n. ?c < b \<and> b div ?D \<le> ?s + 1 \<longrightarrow> item_disabled (pItems m ! b)"
      by (simp add: down_blocked_def)
    from downN_blocked [OF s this] dn
    have r: "(chg, c', s') = (if ?s < (?n - 1) div ?D then (True, ?c, ?s + 1) else (False, ?c, ?s))"
      by simp
    show ?thesis
    proof (cases "?s < last_screen cap m")
      case False
      with r have "c' = ?c" "s' = ?s" by (simp_all add: last_screen_def)
      then have "?m' = m" by (simp only: set_cursor_same)
      with wf ce sc False show ?thesis by simp
    next
      case l: True
      with r have cs: "c' = ?c" "s' = ?s + 1" by (simp_all add: last_screen_def)
      from s128 have "?s < 255" by simp
      from set_cursor_screen_inc [OF this] cs
      have m': "?m' = m\<lparr>nScreen := nScreen m + 1\<rparr>" by simp
      have "current_enabled (m\<lparr>nScreen := nScreen m + 1\<rparr>)"
        using ce by (simp add: current_enabled_def)
      moreover have "menu_wf (m\<lparr>nScreen := nScreen m + 1\<rparr>)"
        using wf by (simp add: menu_wf_def)
      ultimately show ?thesis using True l unfolding m' by simp
    qed
  next
    case False
    then have "\<not> (\<forall>b<?n. ?c < b \<and> b div ?D \<le> ?s + 1 \<longrightarrow> item_disabled (pItems m ! b))"
      by (simp add: down_blocked_def)
    from downN_free [OF s this] dn obtain b where
      p: "next_enabled (pItems m) ?n (Suc ?c) = Some b" and r: "c' = b" "s' = b div ?D"
      by auto
    from next_enabled_Some [OF p]
    have b: "b < ?n" "\<not> item_disabled (pItems m ! b)" by simp_all
    from b(1) n128 len have l: "b < length (pItems m)" "b < 256" by simp_all
    have s256: "b div ?D < 256" by (rule le_less_trans [OF div_le_dividend l(2)])
    have "menu_wf (set_cursor m b (b div ?D))" using b(1) by (intro menu_wf_set_cursor wf) simp
    moreover have "current_enabled (set_cursor m b (b div ?D))"
      using l b(2) by (rule current_enabled_set_cursor)
    moreover have "screen_consistent cap (set_cursor m b (b div ?D))"
      using d0 l(2) s256 refl by (rule screen_consistent_set_cursor)
    ultimately show ?thesis using False r by simp
  qed
  with down d' show ?thesis by blast
qed

lemma invariant_frame:
  "menu_wf (m\<lparr>nSelectedItem := x, pParentMenu := y\<rparr>) = menu_wf m"
  "data_model_inv cap (m\<lparr>nSelectedItem := x, pParentMenu := y\<rparr>) = data_model_inv cap m"
  by (simp_all add: menu_wf_def data_model_inv_def current_enabled_def screen_consistent_def)

lemma menuEnter_invariant:
  assumes wf: "menu_wf m" and inv: "data_model_inv cap m" and h: "h pMenu = Some m"
    and app: "\<forall>f a s. snd (app f a s) = s"
    and res: "menuEnter cap app pMenu h = Some (q, h', calls)"
  shows "\<exists>m'. h' pMenu = Some m' \<and> menu_wf m' \<and> data_model_inv cap m'"
proof -
  from menuEnter_frame [OF res app] h obtain m' where
    m': "h' pMenu = Some m'"
      "m' = m\<lparr>nSelectedItem := nSelectedItem m', pParentMenu := pParentMenu m'\<rparr>"
    by auto
  have "menu_wf m'" "data_model_inv cap m'"
    by (subst m'(2), simp only: invariant_frame, fact)+
  with m'(1) show ?thesis by blast
qed

lemma menuBack_invariant:
  assumes wf: "menu_wf m" and inv: "data_model_inv cap m" and h: "h pMenu = Some m"
  shows "(pParentMenu m = None \<longrightarrow> menuBack cap pMenu h = Some (pMenu, h))
     \<and> (pParentMenu m = Some parent \<and> nSelectedItem m = - 2 \<longrightarrow>
          menuBack cap pMenu h = Some (parent, h))
     \<and> (pParentMenu m = Some parent \<and> nSelectedItem m = - 1 \<longrightarrow>
          (\<exists>m'. menuBack cap pMenu h = Some (parent, h(pMenu \<mapsto> m')) \<and> menu_wf m'
             \<and> determineItemsPerScreen cap m' \<noteq> 0 \<and> current_enabled m' \<and> nScreen m' = 0))
     \<and> (pParentMenu m = Some parent \<and> 0 \<le>s nSelectedItem m \<longrightarrow>
          (\<exists>m'. menuBack cap pMenu h = Some (parent, h(pMenu \<mapsto> m'))
             \<and> determineItemsPerScreen cap m' \<noteq> 0 \<and> screen_consistent cap m'
             \<and> nCurrentItem m' = nSelectedItem m
             \<and> (unat (nSelectedItem m) < length (pItems m)
                  \<and> \<not> item_disabled (pItems m ! unat (nSelectedItem m)) \<longrightarrow>
                  menu_wf m' \<and> data_model_inv cap m')))"
proof (intro conjI impI)
  assume "pParentMenu m = None"
  with h show "menuBack cap pMenu h = Some (pMenu, h)" by (simp add: menuBack_def)
next
  assume a: "pParentMenu m = Some parent \<and> nSelectedItem m = - 2"
  from h have "h(pMenu \<mapsto> m) = h" by (simp add: map_upd_triv)
  with a h show "menuBack cap pMenu h = Some (parent, h)" by (simp add: menuBack_def)
next
  assume a: "pParentMenu m = Some parent \<and> nSelectedItem m = - 1"
  from inv have d0: "determineItemsPerScreen cap m \<noteq> 0" and ce: "current_enabled m"
    and sc: "screen_consistent cap m"
    by (simp_all add: data_model_inv_def)
  let ?m' = "m\<lparr>nCurrentItem :=
               (case find (\<lambda>i. \<not> item_disabled (pItems m ! i)) [0..<length (pItems m)] of
                  Some i \<Rightarrow> of_nat i
                | None \<Rightarrow> nCurrentItem m),
             nScreen := 0\<rparr>"
  have top: "menuPositionTop cap m = Some ?m'"
    using wf d0 ce screen_consistent_128 [OF d0 sc wf] screen_consistent_not_skipping [OF d0 sc]
    by (rule menuPositionTop_top)
  with a h have bk: "menuBack cap pMenu h = Some (parent, h(pMenu \<mapsto> ?m'))"
    by (simp add: menuBack_def)
  from wf have len: "length (pItems m) = unat (nMenuItems m)" and n128: "unat (nMenuItems m) \<le> 128"
    and c: "unat (nCurrentItem m) < max 1 (unat (nMenuItems m))"
    by (simp_all add: menu_wf_def)
  have "menu_wf ?m' \<and> current_enabled ?m'"
  proof (cases "find (\<lambda>i. \<not> item_disabled (pItems m ! i)) [0..<length (pItems m)]")
    case None
    with wf ce show ?thesis by (simp add: menu_wf_def current_enabled_def)
  next
    case (Some i)
    then have "next_enabled (pItems m) (length (pItems m)) 0 = Some i"
      by (simp add: next_enabled_def)
    from next_enabled_Some [OF this]
    have i: "i < length (pItems m)" "\<not> item_disabled (pItems m ! i)" by simp_all
    with len n128 have "unat (of_nat i :: 8 word) = i" by (simp add: unat_of_nat8)
    with i Some len n128 show ?thesis by (simp add: menu_wf_def current_enabled_def)
  qed
  with bk d0 show "\<exists>m'. menuBack cap pMenu h = Some (parent, h(pMenu \<mapsto> m')) \<and> menu_wf m'
             \<and> determineItemsPerScreen cap m' \<noteq> 0 \<and> current_enabled m' \<and> nScreen m' = 0"
    by (intro exI [of _ ?m']) simp
next
  assume a: "pParentMenu m = Some parent \<and> 0 \<le>s nSelectedItem m"
  from inv have d0: "determineItemsPerScreen cap m \<noteq> 0" by (simp add: data_model_inv_def)
  from a have "unat (nSelectedItem m) < 128" by (simp add: sle_zero_int8)
  then have ne: "nSelectedItem m \<noteq> - 1" "nSelectedItem m \<noteq> - 2"
    by (auto simp add: unat_m1)
  let ?m' = "m\<lparr>nCurrentItem := nSelectedItem m,
               nScreen := nSelectedItem m div determineItemsPerScreen cap m\<rparr>"
  from a h ne d0 have bk: "menuBack cap pMenu h = Some (parent, h(pMenu \<mapsto> ?m'))"
    by (simp add: menuBack_def menuGetScreen_eq)
  have sc: "screen_consistent cap ?m'"
    using d0 by (simp add: screen_consistent_def menuGetScreen_eq)
  have "menu_wf ?m' \<and> data_model_inv cap ?m'"
    if "unat (nSelectedItem m) < length (pItems m)
        \<and> \<not> item_disabled (pItems m ! unat (nSelectedItem m))"
    using that wf d0 sc
    by (auto simp add: menu_wf_def data_model_inv_def current_enabled_def)
  with bk d0 sc show "\<exists>m'. menuBack cap pMenu h = Some (parent, h(pMenu \<mapsto> m'))
             \<and> determineItemsPerScreen cap m' \<noteq> 0 \<and> screen_consistent cap m'
             \<and> nCurrentItem m' = nSelectedItem m
             \<and> (unat (nSelectedItem m) < length (pItems m)
                  \<and> \<not> item_disabled (pItems m ! unat (nSelectedItem m)) \<longrightarrow>
                  menu_wf m' \<and> data_model_inv cap m')"
    by (intro exI [of _ ?m']) simp
qed

text \<open>
  Claim C3 as stated fails for \<open>menuUp\<close>: from the last item of
  [enabled, disabled, enabled] with one item per screen, the invariant holds, and
  after \<open>menuUp\<close> the screen index is 1 while the current item 2 is on screen 2.
\<close>

theorem navigation_invariant_counterexample:
  "data_model_inv 7 (example_menu [item_on, item_off, item_on] None 2 (- 1) 2 0x7E)
   \<and> menuUp 7 (example_menu [item_on, item_off, item_on] None 2 (- 1) 2 0x7E) =
       Some (1, example_menu [item_on, item_off, item_on] None 2 (- 1) 1 0x7E)
   \<and> \<not> data_model_inv 7 (example_menu [item_on, item_off, item_on] None 2 (- 1) 1 0x7E)
   \<and> menuGetScreen 7 (example_menu [item_on, item_off, item_on] None 2 (- 1) 1 0x7E) 2 = Some 2
   \<and> nScreen (example_menu [item_on, item_off, item_on] None 2 (- 1) 1 0x7E) = 1"
  by (simp add: nav_eval inv_eval)

text \<open>
  Claim C3 (amended).  From a well-formed menu state that satisfies the data-model
  invariant, \<open>menuUp\<close> and \<open>menuDown\<close> return normally, and in the state they reach
  the menu is still well formed, the number of items per screen is still nonzero and the
  current item is still enabled (or no item is).  When no item before the current one on
  the current or the previous screen is enabled and the screen is not the first one,
  \<open>menuUp\<close> changes nothing but \<open>nScreen\<close>, which it decrements; in every other case
  \<open>nScreen\<close> is the screen of the current item after \<open>menuUp\<close>.  When no item after the
  current one on the current or the next screen is enabled and the screen is not the last
  one, \<open>menuDown\<close> changes nothing but \<open>nScreen\<close>, which it increments; in every other
  case \<open>nScreen\<close> is the screen of the current item after \<open>menuDown\<close>.
  \<open>menuEnter\<close> (with callbacks that leave the store alone) keeps the invariant of the
  menu it is given.  \<open>menuBack\<close> changes nothing on a menu without parent or with
  \<open>nSelectedItem = -2\<close>; with \<open>nSelectedItem = -1\<close> it leaves an enabled current item
  and \<open>nScreen = 0\<close>; with \<open>nSelectedItem \<ge> 0\<close> it makes the selected item current
  and \<open>nScreen\<close> its screen, which is the full invariant when the selected item is a
  valid, enabled item.
\<close>

theorem navigation_invariant:
  assumes "menu_wf m" and "data_model_inv cap m" and "h pMenu = Some m"
  shows "(\<exists>r m'. menuUp cap m = Some (r, m') \<and> menu_wf m'
            \<and> determineItemsPerScreen cap m' \<noteq> 0 \<and> current_enabled m'
            \<and> (if up_blocked cap m \<and> 0 < nScreen m
                then m' = m\<lparr>nScreen := nScreen m - 1\<rparr> else screen_consistent cap m'))
     \<and> (\<exists>r m'. menuDown cap m = Some (r, m') \<and> menu_wf m'
            \<and> determineItemsPerScreen cap m' \<noteq> 0 \<and> current_enabled m'
            \<and> (if down_blocked cap m \<and> unat (nScreen m) < last_screen cap m
                then m' = m\<lparr>nScreen := nScreen m + 1\<rparr> else screen_consistent cap m'))
     \<and> ((\<forall>f a s. snd (app f a s) = s) \<and> menuEnter cap app pMenu h = Some (q, h', calls) \<longrightarrow>
          (\<exists>m'. h' pMenu = Some m' \<and> menu_wf m' \<and> data_model_inv cap m'))
     \<and> (pParentMenu m = None \<longrightarrow> menuBack cap pMenu h = Some (pMenu, h))
     \<and> (pParentMenu m = Some parent \<and> nSelectedItem m = - 2 \<longrightarrow>
          menuBack cap pMenu h = Some (parent, h))
     \<and> (pParentMenu m = Some parent \<and> nSelectedItem m = - 1 \<longrightarrow>
          (\<exists>m'. menuBack cap pMenu h = Some (parent, h(pMenu \<mapsto> m')) \<and> menu_wf m'
             \<and> determineItemsPerScreen cap m' \<noteq> 0 \<and> current_enabled m' \<and> nScreen m' = 0))
     \<and> (pParentMenu m = Some parent \<and> 0 \<le>s nSelectedItem m \<longrightarrow>
          (\<exists>m'. menuBack cap pMenu h = Some (parent, h(pMenu \<mapsto> m'))
             \<and> determineItemsPerScreen cap m' \<noteq> 0 \<and> screen_consistent cap m'
             \<and> nCurrentItem m' = nSelectedItem m
             \<and> (unat (nSelectedItem m) < length (pItems m)
                  \<and> \<not> item_disabled (pItems m ! unat (nSelectedItem m)) \<longrightarrow>
                  menu_wf m' \<and> data_model_inv cap m')))"
proof -
  note u = menuUp_invariant [OF assms(1,2)]
  note d = menuDown_invariant [OF assms(1,2)]
  have e: "(\<forall>f a s. snd (app f a s) = s) \<and> menuEnter cap app pMenu h = Some (q, h', calls) \<longrightarrow>
          (\<exists>m'. h' pMenu = Some m' \<and> menu_wf m' \<and> data_model_inv cap m')"
    using menuEnter_invariant [where h = h and pMenu = pMenu, OF assms, of app q h' calls] by blast
  note b = menuBack_invariant [where h = h and pMenu = pMenu and parent = parent, OF assms]
  from u d e b show ?thesis by (intro conjI) blast+
qed

theorem navigation_invariant_witness:
  "menuUp 7 (example_menu [item_on, item_off, item_on] (Some 9) 2 (- 1) 2 0x7E) =
     Some (1, example_menu [item_on, item_off, item_on] (Some 9) 2 (- 1) 1 0x7E)
   \<and> (\<exists>r m'. menuUp 7 (example_menu [item_on, item_on] (Some 9) 1 (- 1) 0 0) = Some (r, m')
         \<and> data_model_inv 7 m')
   \<and> menuDown 7 (example_menu [item_on, item_off, item_on] (Some 9) 0 (- 1) 0 0x7E) =
     Some (1, example_menu [item_on, item_off, item_on] (Some 9) 0 (- 1) 1 0x7E)
   \<and> (\<exists>r m'. menuDown 7 (example_menu [item_on, item_on] (Some 9) 0 (- 1) 0 0) = Some (r, m')
         \<and> data_model_inv 7 m')
   \<and> (\<exists>m'. menuBack 7 0
          [0 \<mapsto> example_menu [item_on, item_off, item_on] (Some 9) 2 (- 1) 2 0x7E] =
        Some (9, [0 \<mapsto> m']) \<and> current_enabled m' \<and> nScreen m' = 0)
   \<and> (\<exists>m'. menuBack 7 0
          [0 \<mapsto> example_menu [item_on, item_off, item_on] (Some 9) 0 2 0 0x7E] =
        Some (9, [0 \<mapsto> m']) \<and> data_model_inv 7 m' \<and> nCurrentItem m' = 2)"
proof -
  let ?a = "example_menu [item_on, item_off, item_on] (Some 9) 2 (- 1) 2 0x7E"
  let ?b = "example_menu [item_on, item_off, item_on] (Some 9) 0 (- 1) 0 0x7E"
  let ?c = "example_menu [item_on, item_off, item_on] (Some 9) 0 2 0 0x7E"
  let ?e = "example_menu [item_on, item_on] (Some 9) 1 (- 1) 0 0"
  let ?f = "example_menu [item_on, item_on] (Some 9) 0 (- 1) 0 0"
  have a: "menu_wf ?a" "data_model_inv 7 ?a" "[0 \<mapsto> ?a] (0::nat) = Some ?a"
    by (simp_all add: inv_eval)
  have b: "menu_wf ?b" "data_model_inv 7 ?b" "[0 \<mapsto> ?b] (0::nat) = Some ?b"
    by (simp_all add: inv_eval)
  have c: "menu_wf ?c" "data_model_inv 7 ?c" "[0 \<mapsto> ?c] (0::nat) = Some ?c"
    by (simp_all add: inv_eval)
  have e: "menu_wf ?e" "data_model_inv 7 ?e" "[0 \<mapsto> ?e] (0::nat) = Some ?e"
    by (simp_all add: inv_eval)
  have f: "menu_wf ?f" "data_model_inv 7 ?f" "[0 \<mapsto> ?f] (0::nat) = Some ?f"
    by (simp_all add: inv_eval)
  have two: "\<And>P. (\<forall>a<2::nat. P a) \<longleftrightarrow> P 0 \<and> P 1"
    and three: "\<And>P. (\<forall>a<3::nat. P a) \<longleftrightarrow> P 0 \<and> P 1 \<and> P 2"
    by (auto simp add: less_Suc_eq numeral_2_eq_2 numeral_3_eq_3)
  have blocked: "up_blocked 7 ?a" "0 < nScreen ?a"
    "down_blocked 7 ?b" "unat (nScreen ?b) < last_screen 7 ?b"
    by (simp_all add: up_blocked_def down_blocked_def last_screen_def inv_eval two three)
  have free: "\<not> up_blocked 7 ?e" "\<not> down_blocked 7 ?f"
    by (simp_all add: up_blocked_def down_blocked_def inv_eval two)
  have upd: "?a\<lparr>nScreen := nScreen ?a - 1\<rparr> =
      example_menu [item_on, item_off, item_on] (Some 9) 2 (- 1) 1 0x7E"
    "?b\<lparr>nScreen := nScreen ?b + 1\<rparr> =
      example_menu [item_on, item_off, item_on] (Some 9) 0 (- 1) 1 0x7E"
    by (simp_all add: example_menu_def)
  note ta = navigation_invariant [where h = "[0 \<mapsto> ?a]" and pMenu = 0 and parent = 9
      and app = app_idle and q = 0 and h' = "[0 \<mapsto> ?a]" and calls = "[]", OF a]
  note tb = navigation_invariant [where h = "[0 \<mapsto> ?b]" and pMenu = 0 and parent = 9
      and app = app_idle and q = 0 and h' = "[0 \<mapsto> ?b]" and calls = "[]", OF b]
  note tc = navigation_invariant [where h = "[0 \<mapsto> ?c]" and pMenu = 0 and parent = 9
      and app = app_idle and q = 0 and h' = "[0 \<mapsto> ?c]" and calls = "[]", OF c]
  note te = navigation_invariant [where h = "[0 \<mapsto> ?e]" and pMenu = 0 and parent = 9
      and app = app_idle and q = 0 and h' = "[0 \<mapsto> ?e]" and calls = "[]", OF e]
  note tf = navigation_invariant [where h = "[0 \<mapsto> ?f]" and pMenu = 0 and parent = 9
      and app = app_idle and q = 0 and h' = "[0 \<mapsto> ?f]" and calls = "[]", OF f]
  from ta blocked(1,2) obtain r where "menuUp 7 ?a = Some (r, ?a\<lparr>nScreen := nScreen ?a - 1\<rparr>)"
    by auto
  moreover have "\<exists>m'. menuUp 7 ?a = Some (1, m')" by (simp add: nav_eval)
  ultimately have p1: "menuUp 7 ?a =
      Some (1, example_menu [item_on, item_off, item_on] (Some 9) 2 (- 1) 1 0x7E)"
    unfolding upd by auto
  from tb blocked(3,4) obtain r2 where
    "menuDown 7 ?b = Some (r2, ?b\<lparr>nScreen := nScreen ?b + 1\<rparr>)"
    by auto
  moreover have "\<exists>m'. menuDown 7 ?b = Some (1, m')" by (simp add: nav_eval)
  ultimately have p2: "menuDown 7 ?b =
      Some (1, example_menu [item_on, item_off, item_on] (Some 9) 0 (- 1) 1 0x7E)"
    unfolding upd by auto
  from te free(1) have p1': "\<exists>r m'. menuUp 7 ?e = Some (r, m') \<and> data_model_inv 7 m'"
    unfolding data_model_inv_def by auto
  from tf free(2) have p2': "\<exists>r m'. menuDown 7 ?f = Some (r, m') \<and> data_model_inv 7 m'"
    unfolding data_model_inv_def by auto
  from ta have p3: "\<exists>m'. menuBack 7 0 [0 \<mapsto> ?a] = Some (9, [0 \<mapsto> m'])
       \<and> current_enabled m' \<and> nScreen m' = 0"
    by auto
  have sel: "0 \<le>s nSelectedItem ?c" "unat (nSelectedItem ?c) < length (pItems ?c)"
    "\<not> item_disabled (pItems ?c ! unat (nSelectedItem ?c))"
    by (simp_all add: inv_eval word_sle_eq)
  with tc have p4: "\<exists>m'. menuBack 7 0 [0 \<mapsto> ?c] = Some (9, [0 \<mapsto> m'])
       \<and> data_model_inv 7 m' \<and> nCurrentItem m' = 2"
    by auto
  from p1 p1' p2 p2' p3 p4 show ?thesis by blast
qed

lemma fraction_part_range:
  assumes "\<bar>x\<bar> < 2 ^ 31"
  shows "\<exists>f. fraction_part x = Some f \<and> 0 \<le> f \<and> f < 1"
proof -
  let ?n = "if x < 0 then x * (- 1) else x"
  have n: "?n = \<bar>x\<bar>" by simp
  have nn: "0 \<le> ?n" by simp
  have fl: "\<lfloor>?n\<rfloor> < 2 ^ 31" using assms unfolding n by (simp add: floor_less_iff)
  have fl0: "0 \<le> \<lfloor>?n\<rfloor>" using nn by simp
  have c: "int32_of_float ?n = Some \<lfloor>?n\<rfloor>"
    unfolding int32_of_float_def Let_def using nn fl fl0 by simp
  have "fraction_part x = Some (?n - of_int \<lfloor>?n\<rfloor>)"
    unfolding fraction_part_def Let_def c by simp
  moreover have "0 \<le> ?n - of_int \<lfloor>?n\<rfloor>" by simp
  moreover have "?n - of_int \<lfloor>?n\<rfloor> < 1" by linarith
  ultimately show ?thesis by blast
qed

lemma truncated_fraction:
  assumes "0 \<le> f" "f < 1" "0 \<le> s" "s \<le> 100000"
  shows "truncated s f w = Some (\<lfloor>s * f\<rfloor> * w)"
proof -
  have p: "0 \<le> s * f" using assms by simp
  have "s * f \<le> s * 1" using assms by (intro mult_left_mono) simp_all
  then have u: "s * f \<le> 100000" using assms by simp
  have "\<lfloor>s * f\<rfloor> \<le> \<lfloor>100000::rat\<rfloor>" using u by (rule floor_mono)
  then have fl: "\<lfloor>s * f\<rfloor> < 2 ^ 31" by simp
  have fl0: "0 \<le> \<lfloor>s * f\<rfloor>" using p by simp
  have "int32_of_float (s * f) = Some \<lfloor>s * f\<rfloor>"
    unfolding int32_of_float_def Let_def using p fl fl0 by simp
  then show ?thesis unfolding truncated_def by simp
qed

lemma determineDecimals_total:
  assumes "\<bar>x\<bar> < 2 ^ 31"
  shows "\<exists>r. determineDecimals x = Some r \<and> r \<le> 5"
proof -
  from fraction_part_range [OF assms] obtain f
    where f: "fraction_part x = Some f" "0 \<le> f" "f < 1" by blast
  show ?thesis
    using f(2,3)
    by (simp add: determineDecimals_def f(1) truncated_fraction word_le_nat_alt Let_def)
qed

text \<open>
  Claim C9 (the code departs from it).  The four examples of the claim hold on the code:
  the floats nearest to 1.5, 1.503 and 1.2000000008 and the float 0.0 give 1, 3, 1 and 0.
  The general statement does not: for the float nearest to 0.7, which is
  \<open>11744051 / 2\<^sup>2\<^sup>4 = 0.699999988...\<close>, one decimal suffices once the value is rounded
  (\<open>minimal_decimals\<close> is 1), but \<open>determineDecimals\<close> returns 5.  The round-off correction
  compares \<open>scale * number\<close> with \<open>decimal_k\<close> after that has been multiplied by its weight, so
  for \<open>k < 5\<close> it never rounds a nonzero truncation up: \<open>decimal_5\<close> becomes 70000 while
  \<open>decimal_4\<close> stays 69990.
\<close>

theorem determineDecimals_divergence:
  "determineDecimals (3 / 2) = Some 1
   \<and> determineDecimals (12608078 / 8388608) = Some 3
   \<and> determineDecimals (10066330 / 8388608) = Some 1
   \<and> determineDecimals 0 = Some 0
   \<and> determineDecimals (11744051 / 16777216) = Some 5
   \<and> minimal_decimals (11744051 / 16777216) = Some 1"
  by code_simp

lemmas value_flag_defs = M_STRING_def M_FLOAT1_def M_FLOAT2_def M_FLOAT3_def M_FLOAT4_def
  M_FLOAT5_def M_FLOATA_def M_PVALUE_0_def M_PVALUE_1_def M_PVALUE_2_def

lemma value_field_null:
  "pValue pItem = None \<Longrightarrow> value_field pItem = (DummyString, M_STRING)"
  by (simp add: value_field_def)

lemma value_size_dummy:
  "value_size drv mem M_STRING DummyString =
     Some (to_uint8 (lcdGetStringLength drv [] * LCD_CHAR_WIDTH drv), 0)"
  by (simp add: value_size_def deref_string_def value_flag_defs)

lemma print_value_dummy:
  "print_value mem M_STRING DummyString valDecimals valPos page =
     Some (lcdBufferPrintString [] valPos page)"
  by (simp add: print_value_def deref_string_def)

lemma printItem_null:
  assumes it: "item_at (pItems pMenu) (uint nItem) = Some pItem"
    and null: "pValue pItem = None"
  shows "printItem drv mem pMenu nItem page nrSize0 =
    (let alignFlags = flags pItem AND (M_ALIGN_0 OR M_ALIGN_1);
         nrSize = (if nrSize0 = 0
                   then to_uint8 (lcdGetStringLength drv (text_field (pTextNumber pItem))
                                   * LCD_CHAR_WIDTH drv)
                   else nrSize0);
         descSize = to_uint8 (lcdGetStringLength drv (text_field (pTextDescription pItem))
                               * LCD_CHAR_WIDTH drv);
         selSize = to_uint8 ((if sint (nSelectedItem pMenu) \<noteq> - 1 then 1 else 0)
                              * LCD_CHAR_WIDTH drv);
         valSize = to_uint8 (lcdGetStringLength drv [] * LCD_CHAR_WIDTH drv);
         nrPos = number_pos drv alignFlags (total_size drv nrSize descSize valSize);
         fp = field_pos drv (flags pItem) alignFlags nrPos nrSize descSize valSize selSize
     in Some ([lcdBufferPrintString (text_field (pTextNumber pItem)) nrPos page,
               lcdBufferPrintString (text_field (pTextDescription pItem)) (fst fp) page]
              @ (if uint nItem = sint (nSelectedItem pMenu)
                 then [lcdBufferPrintString ''~'' (to_int16 (sint nrPos + uint nrSize)) page]
                 else [])
              @ [lcdBufferPrintString [] (snd fp) page]))"
  unfolding printItem_def it
  by (simp add: value_field_null [OF null] value_size_dummy print_value_dummy Let_def split_def)

lemma flags_forced_string:
  "(f OR M_STRING) AND (M_ALIGN_0 OR M_ALIGN_1) = f AND (M_ALIGN_0 OR M_ALIGN_1)"
  "(f OR M_STRING) AND M_SWAP = f AND M_SWAP"
  by (simp_all add: bit.conj_disj_distrib2 value_flag_defs M_ALIGN_0_def M_ALIGN_1_def M_SWAP_def)

lemma field_pos_forced_string:
  "field_pos drv (f OR M_STRING) alignFlags nrPos nrSize descSize valSize selSize =
   field_pos drv f alignFlags nrPos nrSize descSize valSize selSize"
  unfolding field_pos_def flags_forced_string ..

lemma last_call_split:
  "filter prints_number a = [] \<Longrightarrow>
   \<exists>calls valPos. Some (a @ [lcdBufferPrintString [] v page]) =
                     Some (calls @ [lcdBufferPrintString [] valPos page])
                   \<and> filter prints_number calls = []"
  by blast


text \<open>
  Claim C10.  For an item of the menu whose \<open>pValue\<close> is null, \<open>printItem\<close> works on the
  dummy string with the value kind \<open>M_STRING\<close>, whatever the flags of the item are.  With
  a driver that gives the empty string the length 0, the width of the value is 0 and the
  calls of \<open>printItem\<close> are exactly those of the layout with a value of width 0: the
  number, the description and the selection mark are placed as if there were no value (no
  margin is counted for it), and the value is written last, by \<open>lcdBufferPrintString\<close>
  with the empty string, at the position that the layout gives a field of width 0.  So
  \<open>printItem\<close> returns (no fault) for every content of the value memory, also the empty
  one, its calls do not depend on that memory, no call prints a float or an integer, and
  setting the value-kind bits of the item to \<open>M_STRING\<close> changes nothing.
\<close>

theorem printItem_null_value:
  assumes it: "item_at (pItems pMenu) (uint nItem) = Some pItem"
    and null: "pValue pItem = None"
    and empty: "lcdGetStringLength drv [] = 0"
  shows "value_field pItem = (DummyString, M_STRING)
    \<and> map_option fst (value_size drv mem M_STRING DummyString) = Some 0
    \<and> printItem drv mem pMenu nItem page nrSizeIn =
        (let alignFlags = flags pItem AND (M_ALIGN_0 OR M_ALIGN_1);
             nrSize = (if nrSizeIn = 0
                       then to_uint8 (lcdGetStringLength drv (text_field (pTextNumber pItem))
                                       * LCD_CHAR_WIDTH drv)
                       else nrSizeIn);
             descSize = to_uint8 (lcdGetStringLength drv (text_field (pTextDescription pItem))
                                   * LCD_CHAR_WIDTH drv);
             selSize = to_uint8 ((if sint (nSelectedItem pMenu) \<noteq> - 1 then 1 else 0)
                                  * LCD_CHAR_WIDTH drv);
             nrPos = number_pos drv alignFlags (total_size drv nrSize descSize 0);
             fp = field_pos drv (flags pItem) alignFlags nrPos nrSize descSize 0 selSize
         in Some ([lcdBufferPrintString (text_field (pTextNumber pItem)) nrPos page,
                   lcdBufferPrintString (text_field (pTextDescription pItem)) (fst fp) page]
                  @ (if uint nItem = sint (nSelectedItem pMenu)
                     then [lcdBufferPrintString ''~'' (to_int16 (sint nrPos + uint nrSize)) page]
                     else [])
                  @ [lcdBufferPrintString [] (snd fp) page]))
    \<and> (\<exists>calls valPos.
          printItem drv mem pMenu nItem page nrSizeIn =
            Some (calls @ [lcdBufferPrintString [] valPos page])
          \<and> filter prints_number calls = [])
    \<and> printItem drv mem pMenu nItem page nrSizeIn =
        printItem drv Map.empty pMenu nItem page nrSizeIn
    \<and> printItem drv mem
         (pMenu\<lparr>pItems := (pItems pMenu)[unat nItem := pItem\<lparr>flags := flags pItem OR M_STRING\<rparr>]\<rparr>)
         nItem page nrSizeIn =
        printItem drv mem pMenu nItem page nrSizeIn"
proof (intro conjI)
  have zero: "to_uint8 (lcdGetStringLength drv [] * LCD_CHAR_WIDTH drv) = 0"
    by (simp add: empty to_uint8_def)
  show "value_field pItem = (DummyString, M_STRING)"
    using null by (rule value_field_null)
  show "map_option fst (value_size drv mem M_STRING DummyString) = Some 0"
    by (simp add: value_size_dummy zero)
  show "printItem drv mem pMenu nItem page nrSizeIn =
        (let alignFlags = flags pItem AND (M_ALIGN_0 OR M_ALIGN_1);
             nrSize = (if nrSizeIn = 0
                       then to_uint8 (lcdGetStringLength drv (text_field (pTextNumber pItem))
                                       * LCD_CHAR_WIDTH drv)
                       else nrSizeIn);
             descSize = to_uint8 (lcdGetStringLength drv (text_field (pTextDescription pItem))
                                   * LCD_CHAR_WIDTH drv);
             selSize = to_uint8 ((if sint (nSelectedItem pMenu) \<noteq> - 1 then 1 else 0)
                                  * LCD_CHAR_WIDTH drv);
             nrPos = number_pos drv alignFlags (total_size drv nrSize descSize 0);
             fp = field_pos drv (flags pItem) alignFlags nrPos nrSize descSize 0 selSize
         in Some ([lcdBufferPrintString (text_field (pTextNumber pItem)) nrPos page,
                   lcdBufferPrintString (text_field (pTextDescription pItem)) (fst fp) page]
                  @ (if uint nItem = sint (nSelectedItem pMenu)
                     then [lcdBufferPrintString ''~'' (to_int16 (sint nrPos + uint nrSize)) page]
                     else [])
                  @ [lcdBufferPrintString [] (snd fp) page]))"
    unfolding printItem_null [OF it null] zero by (simp add: Let_def)
  show "\<exists>calls valPos.
          printItem drv mem pMenu nItem page nrSizeIn =
            Some (calls @ [lcdBufferPrintString [] valPos page])
          \<and> filter prints_number calls = []"
    unfolding printItem_null [OF it null] Let_def append_assoc [symmetric]
    by (rule last_call_split) simp
  show "printItem drv mem pMenu nItem page nrSizeIn =
        printItem drv Map.empty pMenu nItem page nrSizeIn"
    unfolding printItem_null [OF it null] ..
  let ?it = "pItem\<lparr>flags := flags pItem OR M_STRING\<rparr>"
  let ?m = "pMenu\<lparr>pItems := (pItems pMenu)[unat nItem := ?it]\<rparr>"
  from it have len: "unat nItem < length (pItems pMenu)"
    by (simp add: item_at_def split: if_splits)
  have it': "item_at (pItems ?m) (uint nItem) = Some ?it"
    using len by (simp add: item_at_def)
  have null': "pValue ?it = None" using null by simp
  show "printItem drv mem ?m nItem page nrSizeIn = printItem drv mem pMenu nItem page nrSizeIn"
    unfolding printItem_null [OF it null] printItem_null [OF it' null']
    by (simp add: flags_forced_string field_pos_forced_string)
qed

lemmas layout_eval = item_at_def labelled_item_def example_driver_def text_field_def
  total_size_def number_pos_def field_pos_def c_div_def to_uint8_def to_int16_def value_flag_defs
  M_ALIGN_0_def M_ALIGN_1_def M_SWAP_def M_RIGHT_def M_CENTER_def M_SPLIT_def Let_def

theorem printItem_null_value_witness:
  "printItem example_driver Map.empty
     (example_menu [labelled_item (M_FLOAT1 OR M_RIGHT)] None 0 (- 1) 0 0) 0 1 0 =
     Some [lcdBufferPrintString ''1'' 90 1, lcdBufferPrintString ''Gain'' 102 1,
           lcdBufferPrintString [] 132 1]
   \<and> printItem example_driver Map.empty
     (example_menu [labelled_item (M_FLOAT1 OR M_SPLIT)] None 0 0 0 0) 0 1 0 =
     Some [lcdBufferPrintString ''1'' 2 1, lcdBufferPrintString ''Gain'' 14 1,
           lcdBufferPrintString ''~'' 8 1, lcdBufferPrintString [] 126 1]
   \<and> value_field (labelled_item (M_FLOAT1 OR M_RIGHT)) = (DummyString, M_STRING)"
proof -
  let ?r = "labelled_item (M_FLOAT1 OR M_RIGHT)"
  let ?s = "labelled_item (M_FLOAT1 OR M_SPLIT)"
  let ?m = "example_menu [?r] None 0 (- 1) 0 0"
  let ?k = "example_menu [?s] None 0 0 0 0"
  have 1: "item_at (pItems ?m) (uint (0::8 word)) = Some ?r"
    "item_at (pItems ?k) (uint (0::8 word)) = Some ?s"
    by (simp_all add: item_at_def)
  have 2: "pValue ?r = None" "pValue ?s = None"
    by (simp_all add: labelled_item_def)
  have 3: "lcdGetStringLength example_driver [] = 0"
    by (simp add: example_driver_def)
  note r = printItem_null_value [where drv = example_driver and mem = Map.empty and pMenu = ?m
      and nItem = 0 and page = 1 and nrSizeIn = 0, OF 1(1) 2(1) 3]
  note s = printItem_null_value [where drv = example_driver and mem = Map.empty and pMenu = ?k
      and nItem = 0 and page = 1 and nrSizeIn = 0, OF 1(2) 2(2) 3]
  have a: "printItem example_driver Map.empty ?m 0 1 0 =
     Some [lcdBufferPrintString ''1'' 90 1, lcdBufferPrintString ''Gain'' 102 1,
           lcdBufferPrintString [] 132 1]"
    unfolding r [THEN conjunct2, THEN conjunct2, THEN conjunct1]
    by (simp add: layout_eval)
  have b: "printItem example_driver Map.empty ?k 0 1 0 =
     Some [lcdBufferPrintString ''1'' 2 1, lcdBufferPrintString ''Gain'' 14 1,
           lcdBufferPrintString ''~'' 8 1, lcdBufferPrintString [] 126 1]"
    unfolding s [THEN conjunct2, THEN conjunct2, THEN conjunct1]
    by (simp add: layout_eval)
  from a b r [THEN conjunct1] show ?thesis by (intro conjI)
qed

end
